theory Spec2Isabelle
  imports Complex_Main "HOL-Library.AList"
begin

section \<open>PageRank estimators of pagerank.py\<close>

text \<open>
  The development embeds \<^verbatim>\<open>transition_model\<close>, \<^verbatim>\<open>sample_pagerank\<close>,
  \<^verbatim>\<open>iterate_pagerank\<close> and \<^verbatim>\<open>estimate_page_rank\<close> of \<^verbatim>\<open>pagerank.py\<close>.

  \<^item> A Python \<^verbatim>\<open>dict\<close> is an association list in insertion order; \<^verbatim>\<open>d[k]\<close> is
    \<open>getitem\<close> (a missing key is \<open>KeyError\<close>), \<^verbatim>\<open>d[k] = v\<close> is \<open>AList.update\<close>
    (an existing key keeps its position, a new key goes to the end), \<^verbatim>\<open>len(d)\<close> is
    \<open>length\<close>. A list stands for a dict only when its keys are distinct.
  \<^item> The collection of links of a page is a list; it stands for a Python set when
    it is distinct. \<^verbatim>\<open>len\<close>, \<^verbatim>\<open>in\<close> and iteration are those of the list.
  \<^item> Python floats are the real numbers: rounding is not part of the model.
  \<^item> Every exception is a value \<open>Inl err\<close> of the result.
  \<^item> The random source is a parameter \<open>rnd\<close>: \<open>rnd k\<close> is the raw number behind the
    \<open>k\<close>-th draw of a run.
  \<^item> The \<^verbatim>\<open>while\<close> loop of \<^verbatim>\<open>iterate_pagerank\<close> has no bound on its rounds; it is a
    partial function whose value \<open>None\<close> stands for a run that never returns.
\<close>

subsection \<open>Errors and dictionaries\<close>

text \<open>
  \<open>EmptyGraphError\<close> is the condition the specification names for an empty graph;
  no statement of the source raises it.
\<close>

datatype error =
    KeyError
  | IndexError
  | ValueError
  | ZeroDivisionError
  | TypeError
  | EmptyGraphError

type_synonym ('k, 'v) dict = "('k \<times> 'v) list"

type_synonym 'p corpus = "('p, 'p list) dict"

definition keys :: "('k, 'v) dict \<Rightarrow> 'k list" where
  "keys d = map fst d"

definition getitem :: "('k, 'v) dict \<Rightarrow> 'k \<Rightarrow> error + 'v" where
  "getitem d k = (case map_of d k of None \<Rightarrow> Inl KeyError | Some v \<Rightarrow> Inr v)"

text \<open>\<^verbatim>\<open>dict.fromkeys(ks, v)\<close> for a list \<open>ks\<close> of distinct keys.\<close>

definition fromkeys :: "'k list \<Rightarrow> 'v \<Rightarrow> ('k, 'v) dict" where
  "fromkeys ks v = map (\<lambda>k. (k, v)) ks"

subsection \<open>The random source\<close>

text \<open>
  \<^verbatim>\<open>random.choice(seq)\<close> raises \<^verbatim>\<open>IndexError\<close> on an empty sequence and returns
  \<^verbatim>\<open>seq[i]\<close> for a random index \<open>i < len(seq)\<close> otherwise.

  \<^verbatim>\<open>random.choices(population, weights, k=1)\<close> rejects weight lists of the wrong length
  and a total weight that is not positive (\<^verbatim>\<open>ValueError\<close>), and returns an element
  of the population otherwise. Which element it is depends on the weights and on the
  random number; here it is left to the random source, so that every element the
  library can return is an outcome of the model.
\<close>

definition choice :: "'a list \<Rightarrow> nat \<Rightarrow> error + 'a" where
  "choice seq r = (if seq = [] then Inl IndexError else Inr (seq ! (r mod length seq)))"

definition choices :: "'a list \<Rightarrow> real list \<Rightarrow> nat \<Rightarrow> error + 'a" where
  "choices population weights r =
     (if length weights \<noteq> length population then Inl ValueError
      else if population = [] then Inl IndexError
      else if sum_list weights \<le> 0 then Inl ValueError
      else Inr (population ! (r mod length population)))"

subsection \<open>\<^verbatim>\<open>transition_model\<close>\<close>

text \<open>The loop \<^verbatim>\<open>for linked_page in corpus[page]: dist[linked_page] += link_chance\<close>.\<close>

fun add_link_chance :: "'p list \<Rightarrow> real \<Rightarrow> ('p, real) dict \<Rightarrow> error + ('p, real) dict" where
  "add_link_chance [] link_chance distr = Inr distr"
| "add_link_chance (linked_page # rest) link_chance distr =
     (case getitem distr linked_page of
        Inl e \<Rightarrow> Inl e
      | Inr v \<Rightarrow> add_link_chance rest link_chance (AList.update linked_page (v + link_chance) distr))"

definition transition_model :: "'p corpus \<Rightarrow> 'p \<Rightarrow> real \<Rightarrow> error + ('p, real) dict" where
  "transition_model corpus page damping_factor =
     (let total_pages = length corpus in
      case getitem corpus page of
        Inl e \<Rightarrow> Inl e
      | Inr links \<Rightarrow>
          let num_links = length links in
          if num_links = 0 then
            (if total_pages = 0 then Inl ZeroDivisionError
             else Inr (fromkeys (keys corpus) (1 / real total_pages)))
          else
            (if total_pages = 0 then Inl ZeroDivisionError
             else
               let random_chance = (1 - damping_factor) / real total_pages;
                   link_chance = damping_factor / real num_links
               in add_link_chance links link_chance (fromkeys (keys corpus) random_chance)))"

subsection \<open>\<^verbatim>\<open>sample_pagerank\<close>\<close>

text \<open>
  The loop \<^verbatim>\<open>for s in range(n - 1)\<close>; its iteration \<open>s\<close> takes draw \<open>Suc s\<close> of the
  random source (draw \<open>0\<close> is the starting page).
\<close>

fun sample_loop ::
  "'p corpus \<Rightarrow> real \<Rightarrow> (nat \<Rightarrow> nat) \<Rightarrow> nat list \<Rightarrow> ('p, real) dict \<Rightarrow> ('p, int) dict
     \<Rightarrow> error + ('p, int) dict" where
  "sample_loop corpus damping_factor rnd [] distr samples = Inr samples"
| "sample_loop corpus damping_factor rnd (s # rest) distr samples =
     (case choices (keys distr) (map snd distr) (rnd (Suc s)) of
        Inl e \<Rightarrow> Inl e
      | Inr page \<Rightarrow>
          (case transition_model corpus page damping_factor of
             Inl e \<Rightarrow> Inl e
           | Inr distr' \<Rightarrow>
               (case getitem samples page of
                  Inl e \<Rightarrow> Inl e
                | Inr c \<Rightarrow>
                    sample_loop corpus damping_factor rnd rest distr'
                      (AList.update page (c + 1) samples))))"

text \<open>The visit counts \<^verbatim>\<open>samples\<close> as they stand after the sampling loop.\<close>

definition sample_counts ::
  "'p corpus \<Rightarrow> real \<Rightarrow> int \<Rightarrow> (nat \<Rightarrow> nat) \<Rightarrow> error + ('p, int) dict" where
  "sample_counts corpus damping_factor n rnd =
     (case choice (keys corpus) (rnd 0) of
        Inl e \<Rightarrow> Inl e
      | Inr page \<Rightarrow>
          (case transition_model corpus page damping_factor of
             Inl e \<Rightarrow> Inl e
           | Inr distr \<Rightarrow>
               (let samples = fromkeys (keys corpus) 0 in
                case getitem samples page of
                  Inl e \<Rightarrow> Inl e
                | Inr c \<Rightarrow>
                    sample_loop corpus damping_factor rnd [0 ..< nat (n - 1)] distr
                      (AList.update page (c + 1) samples))))"

text \<open>The loop \<^verbatim>\<open>for s in samples: page_rank[s] = samples[s] / n\<close>.\<close>

fun normalise ::
  "('p, int) dict \<Rightarrow> 'p list \<Rightarrow> int \<Rightarrow> ('p, real) dict \<Rightarrow> error + ('p, real) dict" where
  "normalise samples [] n page_rank = Inr page_rank"
| "normalise samples (s # rest) n page_rank =
     (case getitem samples s of
        Inl e \<Rightarrow> Inl e
      | Inr c \<Rightarrow>
          if n = 0 then Inl ZeroDivisionError
          else normalise samples rest n
                 (AList.update s (real_of_int c / real_of_int n) page_rank))"

definition sample_pagerank ::
  "'p corpus \<Rightarrow> real \<Rightarrow> int \<Rightarrow> (nat \<Rightarrow> nat) \<Rightarrow> error + ('p, real) dict" where
  "sample_pagerank corpus damping_factor n rnd =
     (case sample_counts corpus damping_factor n rnd of
        Inl e \<Rightarrow> Inl e
      | Inr samples \<Rightarrow> normalise samples (keys samples) n [])"

subsection \<open>\<^verbatim>\<open>estimate_page_rank\<close>\<close>

fun component_loop ::
  "'p corpus \<Rightarrow> nat \<Rightarrow> ('p, real) dict \<Rightarrow> 'p list \<Rightarrow> real \<Rightarrow> error + real" where
  "component_loop corpus total_pages current_page_ranks [] component = Inr component"
| "component_loop corpus total_pages current_page_ranks (linking_page # rest) component =
     (case getitem corpus linking_page of
        Inl e \<Rightarrow> Inl e
      | Inr links \<Rightarrow>
          (let num_links = length links in
           case getitem current_page_ranks linking_page of
             Inl e \<Rightarrow> Inl e
           | Inr r \<Rightarrow>
               if num_links = 0 then
                 (if total_pages = 0 then Inl ZeroDivisionError
                  else component_loop corpus total_pages current_page_ranks rest
                         (component + r / real total_pages))
               else component_loop corpus total_pages current_page_ranks rest
                      (component + r / real num_links)))"

definition estimate_page_rank ::
  "'p corpus \<Rightarrow> real \<Rightarrow> nat \<Rightarrow> ('p, real) dict \<Rightarrow> 'p list \<Rightarrow> error + real" where
  "estimate_page_rank corpus damping_factor total_pages current_page_ranks linking_pages =
     (case component_loop corpus total_pages current_page_ranks linking_pages 0 of
        Inl e \<Rightarrow> Inl e
      | Inr component \<Rightarrow>
          if total_pages = 0 then Inl ZeroDivisionError
          else Inr ((1 - damping_factor) / real total_pages + damping_factor * component))"

subsection \<open>\<^verbatim>\<open>iterate_pagerank\<close>\<close>

text \<open>
  The inner loop \<^verbatim>\<open>for linking_page in corpus\<close> that fills
  \<^verbatim>\<open>linking_pages_dict[page]\<close>; the list it appends to is the accumulator.
\<close>

fun linking_pages :: "'p corpus \<Rightarrow> 'p \<Rightarrow> 'p list \<Rightarrow> 'p list \<Rightarrow> error + 'p list" where
  "linking_pages corpus page [] acc = Inr acc"
| "linking_pages corpus page (linking_page # rest) acc =
     (case getitem corpus linking_page of
        Inl e \<Rightarrow> Inl e
      | Inr links \<Rightarrow>
          if page \<in> set links \<or> length links = 0
          then linking_pages corpus page rest (acc @ [linking_page])
          else linking_pages corpus page rest acc)"

text \<open>
  The outer loop \<^verbatim>\<open>for page in corpus\<close>. \<^verbatim>\<open>dict.fromkeys(list(corpus))\<close> starts every
  entry at \<^verbatim>\<open>None\<close>, so the values of the index are optional lists.
\<close>

fun build_linking_pages ::
  "'p corpus \<Rightarrow> 'p list \<Rightarrow> ('p, 'p list option) dict \<Rightarrow> error + ('p, 'p list option) dict" where
  "build_linking_pages corpus [] lpd = Inr lpd"
| "build_linking_pages corpus (page # rest) lpd =
     (case linking_pages corpus page (keys corpus) [] of
        Inl e \<Rightarrow> Inl e
      | Inr lps \<Rightarrow> build_linking_pages corpus rest (AList.update page (Some lps) lpd))"

definition linking_pages_dict :: "'p corpus \<Rightarrow> error + ('p, 'p list option) dict" where
  "linking_pages_dict corpus =
     build_linking_pages corpus (keys corpus) (fromkeys (keys corpus) None)"

definition threshold :: real where
  "threshold = 1 / 1000"

text \<open>
  One pass of \<^verbatim>\<open>for page in corpus\<close> inside the \<^verbatim>\<open>while\<close> loop: the flag \<^verbatim>\<open>loop\<close> and
  the one table \<^verbatim>\<open>page_rank\<close> are threaded through the pages. Iterating over the
  entry \<^verbatim>\<open>None\<close> of the index would be a \<^verbatim>\<open>TypeError\<close>.
\<close>

fun update_round ::
  "'p corpus \<Rightarrow> real \<Rightarrow> nat \<Rightarrow> ('p, 'p list option) dict \<Rightarrow> 'p list \<Rightarrow> bool \<Rightarrow> ('p, real) dict
     \<Rightarrow> error + (bool \<times> ('p, real) dict)" where
  "update_round corpus damping_factor total_pages lpd [] loop page_rank = Inr (loop, page_rank)"
| "update_round corpus damping_factor total_pages lpd (page # rest) loop page_rank =
     (case getitem lpd page of
        Inl e \<Rightarrow> Inl e
      | Inr None \<Rightarrow> Inl TypeError
      | Inr (Some lps) \<Rightarrow>
          (case estimate_page_rank corpus damping_factor total_pages page_rank lps of
             Inl e \<Rightarrow> Inl e
           | Inr estimate \<Rightarrow>
               (case getitem page_rank page of
                  Inl e \<Rightarrow> Inl e
                | Inr current \<Rightarrow>
                    update_round corpus damping_factor total_pages lpd rest
                      (if current - estimate > threshold \<or> estimate - current > threshold
                       then True else loop)
                      (AList.update page estimate page_rank))))"

text \<open>The loop \<^verbatim>\<open>while loop\<close>, entered with \<^verbatim>\<open>loop = True\<close>.\<close>

partial_function (option) converge ::
  "'p corpus \<Rightarrow> real \<Rightarrow> nat \<Rightarrow> ('p, 'p list option) dict \<Rightarrow> ('p, real) dict
     \<Rightarrow> (error + ('p, real) dict) option" where
  "converge corpus damping_factor total_pages lpd page_rank =
     (case update_round corpus damping_factor total_pages lpd (keys corpus) False page_rank of
        Inl e \<Rightarrow> Some (Inl e)
      | Inr (loop, page_rank') \<Rightarrow>
          if loop then converge corpus damping_factor total_pages lpd page_rank'
          else Some (Inr page_rank'))"

definition iterate_pagerank :: "'p corpus \<Rightarrow> real \<Rightarrow> (error + ('p, real) dict) option" where
  "iterate_pagerank corpus damping_factor =
     (case linking_pages_dict corpus of
        Inl e \<Rightarrow> Some (Inl e)
      | Inr lpd \<Rightarrow>
          (let total_pages = length corpus in
           if total_pages = 0 then Some (Inl ZeroDivisionError)
           else converge corpus damping_factor total_pages lpd
                  (fromkeys (keys corpus) (1 / real total_pages))))"

subsection \<open>Notions used in the statements\<close>

text \<open>
  Page \<open>q\<close> counts as linking to page \<open>p\<close>: it is a key of the graph and \<open>p\<close> is among
  its links or it has no link at all. This is the test of the backlink loop.
\<close>

definition backlink :: "'p corpus \<Rightarrow> 'p \<Rightarrow> 'p \<Rightarrow> bool" where
  "backlink corpus p q =
     (case map_of corpus q of None \<Rightarrow> False | Some links \<Rightarrow> p \<in> set links \<or> links = [])"

text \<open>
  The LinkGraph of the specification: a dict that is not empty, in which the links of
  every page form a set of pages that are keys of the graph, the page itself excluded.
\<close>

definition link_graph :: "'p corpus \<Rightarrow> bool" where
  "link_graph corpus \<longleftrightarrow>
     corpus \<noteq> [] \<and> distinct (keys corpus)
     \<and> (\<forall>(p, links) \<in> set corpus.
           distinct links \<and> set links \<subseteq> set (keys corpus) \<and> p \<notin> set links)"

text \<open>
  The round as the specification words it: every estimate of a round is computed from
  the table \<open>previous\<close> of the round before, and written to a second table. It is not
  part of the source; it is stated for comparison with \<open>update_round\<close>, the round the
  source runs.
\<close>

fun snapshot_round ::
  "'p corpus \<Rightarrow> real \<Rightarrow> nat \<Rightarrow> ('p, 'p list option) dict \<Rightarrow> 'p list \<Rightarrow> ('p, real) dict
     \<Rightarrow> ('p, real) dict \<Rightarrow> error + ('p, real) dict" where
  "snapshot_round corpus damping_factor total_pages lpd [] previous next_ranks = Inr next_ranks"
| "snapshot_round corpus damping_factor total_pages lpd (page # rest) previous next_ranks =
     (case getitem lpd page of
        Inl e \<Rightarrow> Inl e
      | Inr None \<Rightarrow> Inl TypeError
      | Inr (Some lps) \<Rightarrow>
          (case estimate_page_rank corpus damping_factor total_pages previous lps of
             Inl e \<Rightarrow> Inl e
           | Inr estimate \<Rightarrow>
               snapshot_round corpus damping_factor total_pages lpd rest previous
                 (AList.update page estimate next_ranks)))"

subsection \<open>Notions used in the termination proof\<close>

text \<open>The rank of page \<open>q\<close> in a table (0 for a page that is not a key).\<close>

definition rank_of :: "('p, real) dict \<Rightarrow> 'p \<Rightarrow> real" where
  "rank_of pr q = (case getitem pr q of Inl e \<Rightarrow> 0 | Inr v \<Rightarrow> v)"

text \<open>The share of its rank that page \<open>q\<close> passes to each page it counts as linking to:
  \<open>1 / total_pages\<close> for a page without links, \<open>1 / num_links\<close> otherwise, as in
  \<open>estimate_page_rank\<close>.\<close>

definition out_weight :: "'p corpus \<Rightarrow> 'p \<Rightarrow> real" where
  "out_weight corpus q =
     (case getitem corpus q of
        Inl e \<Rightarrow> 0
      | Inr links \<Rightarrow>
          if links = [] then 1 / real (length corpus) else 1 / real (length links))"

text \<open>The weight with which the rank of \<open>q\<close> enters the estimate of \<open>p\<close>.\<close>

definition link_weight :: "'p corpus \<Rightarrow> 'p \<Rightarrow> 'p \<Rightarrow> real" where
  "link_weight corpus p q = (if backlink corpus p q then out_weight corpus q else 0)"

text \<open>Page \<open>q\<close> comes before page \<open>p\<close> in the key order \<open>ks\<close>.\<close>

definition earlier :: "'p list \<Rightarrow> 'p \<Rightarrow> 'p \<Rightarrow> bool" where
  "earlier ks q p \<longleftrightarrow> q \<in> set (takeWhile (\<lambda>r. r \<noteq> p) ks)"

text \<open>The table after one round of the loop.\<close>

definition next_table ::
  "'p corpus \<Rightarrow> real \<Rightarrow> ('p, 'p list option) dict \<Rightarrow> ('p, real) dict \<Rightarrow> ('p, real) dict" where
  "next_table corpus d lpd pr =
     (case update_round corpus d (length corpus) lpd (keys corpus) False pr of
        Inl e \<Rightarrow> pr
      | Inr (loop, pr') \<Rightarrow> pr')"

text \<open>\<open>lpd\<close> is the backlink index of the graph.\<close>

definition built :: "'p corpus \<Rightarrow> ('p, 'p list option) dict \<Rightarrow> bool" where
  "built corpus lpd \<longleftrightarrow>
     (\<forall>p \<in> set (keys corpus).
        getitem lpd p = Inr (Some (filter (backlink corpus p) (keys corpus))))"

text \<open>The weight of page \<open>q\<close> in the measure of change: 1 minus \<open>d\<close> times the part of
  the rank of \<open>q\<close> that goes to pages updated after \<open>q\<close> in a round.\<close>

definition mass :: "'p corpus \<Rightarrow> real \<Rightarrow> 'p \<Rightarrow> real" where
  "mass corpus d q =
     1 - d * (\<Sum>p\<in>set (keys corpus). if earlier (keys corpus) q p then link_weight corpus p q else 0)"

text \<open>The weighted change between two tables.\<close>

definition change :: "'p corpus \<Rightarrow> real \<Rightarrow> ('p, real) dict \<Rightarrow> ('p, real) dict \<Rightarrow> real" where
  "change corpus d a b = (\<Sum>q\<in>set (keys corpus). mass corpus d q * \<bar>rank_of b q - rank_of a q\<bar>)"

section \<open>Properties\<close>

subsection \<open>Dictionaries\<close>

lemma getitem_Inr_iff: "getitem d k = Inr v \<longleftrightarrow> map_of d k = Some v"
  by (simp add: getitem_def split: option.splits)

lemma getitem_Inl_iff: "getitem d k = Inl e \<longleftrightarrow> map_of d k = None \<and> e = KeyError"
  by (auto simp: getitem_def split: option.splits)

lemma getitem_in_keys: "k \<in> set (keys d) \<Longrightarrow> \<exists>v. getitem d k = Inr v"
  by (auto simp: keys_def getitem_def map_of_eq_None_iff split: option.splits)

lemma getitem_Inr_keys: "getitem d k = Inr v \<Longrightarrow> k \<in> set (keys d)"
  by (auto simp: keys_def getitem_Inr_iff dest: map_of_SomeD intro: rev_image_eqI)

lemma keys_fromkeys [simp]: "keys (fromkeys ks v) = ks"
  by (simp add: keys_def fromkeys_def comp_def)

lemma map_of_fromkeys: "map_of (fromkeys ks v) k = (if k \<in> set ks then Some v else None)"
  by (induction ks) (auto simp: fromkeys_def)

lemma getitem_fromkeys: "k \<in> set ks \<Longrightarrow> getitem (fromkeys ks v) k = Inr v"
  by (simp add: getitem_def map_of_fromkeys)

lemma sum_list_fromkeys: "sum_list (map snd (fromkeys ks (v::real))) = real (length ks) * v"
  by (induction ks) (auto simp: fromkeys_def algebra_simps)

lemma keys_update_present: "k \<in> set (keys d) \<Longrightarrow> keys (AList.update k v d) = keys d"
  by (simp add: keys_def update_keys)

lemma getitem_update: "getitem (AList.update k v d) q = (if q = k then Inr v else getitem d q)"
  by (simp add: getitem_def update_conv')

lemma sum_list_update_present:
  "map_of d k = Some (old::real) \<Longrightarrow> sum_list (map snd (AList.update k v d)) = sum_list (map snd d) - old + v"
  by (induction d) (auto split: if_splits)

lemma add_link_chance_total:
  "set ls \<subseteq> set (keys distr) \<Longrightarrow>
   \<exists>distr'. add_link_chance ls c distr = Inr distr' \<and> keys distr' = keys distr
     \<and> sum_list (map snd distr') = sum_list (map snd distr) + real (length ls) * c
     \<and> (\<forall>q v. getitem distr q = Inr v \<longrightarrow> getitem distr' q = Inr (v + real (count_list ls q) * c))"
proof (induction ls arbitrary: distr)
  case Nil
  then show ?case by simp
next
  case (Cons l ls)
  from Cons.prems have lk: "l \<in> set (keys distr)" and sub: "set ls \<subseteq> set (keys distr)" by auto
  from getitem_in_keys [OF lk] obtain v0 where v0: "getitem distr l = Inr v0" by blast
  let ?d1 = "AList.update l (v0 + c) distr"
  have k1: "keys ?d1 = keys distr" using lk by (rule keys_update_present)
  with sub have "set ls \<subseteq> set (keys ?d1)" by simp
  from Cons.IH [OF this] obtain distr' where
    r: "add_link_chance ls c ?d1 = Inr distr'" and
    k: "keys distr' = keys ?d1" and
    s: "sum_list (map snd distr') = sum_list (map snd ?d1) + real (length ls) * c" and
    g: "\<forall>q v. getitem ?d1 q = Inr v \<longrightarrow> getitem distr' q = Inr (v + real (count_list ls q) * c)"
    by blast
  have s1: "sum_list (map snd ?d1) = sum_list (map snd distr) + c"
    using v0 by (simp add: getitem_Inr_iff sum_list_update_present)
  have "add_link_chance (l # ls) c distr = Inr distr'" using v0 r by simp
  moreover have "keys distr' = keys distr" using k k1 by simp
  moreover have "sum_list (map snd distr') = sum_list (map snd distr) + real (length (l # ls)) * c"
    using s s1 by (simp add: algebra_simps)
  moreover have "\<forall>q v. getitem distr q = Inr v \<longrightarrow> getitem distr' q = Inr (v + real (count_list (l # ls) q) * c)"
  proof (intro allI impI)
    fix q v assume qv: "getitem distr q = Inr v"
    show "getitem distr' q = Inr (v + real (count_list (l # ls) q) * c)"
    proof (cases "q = l")
      case True
      with qv v0 have "v = v0" by simp
      with True have "getitem ?d1 q = Inr (v + c)" by (simp add: getitem_update)
      with g have "getitem distr' q = Inr (v + c + real (count_list ls q) * c)" by blast
      with True show ?thesis by (simp add: algebra_simps)
    next
      case False
      with qv have "getitem ?d1 q = Inr v" by (simp add: getitem_update)
      with g have "getitem distr' q = Inr (v + real (count_list ls q) * c)" by blast
      with False show ?thesis by simp
    qed
  qed
  ultimately show ?case by blast
qed

lemma add_link_chance_KeyError:
  "\<not> set ls \<subseteq> set (keys distr) \<Longrightarrow> add_link_chance ls c distr = Inl KeyError"
proof (induction ls arbitrary: distr)
  case Nil
  then show ?case by simp
next
  case (Cons l ls)
  show ?case
  proof (cases "l \<in> set (keys distr)")
    case True
    from getitem_in_keys [OF True] obtain v0 where v0: "getitem distr l = Inr v0" by blast
    have "keys (AList.update l (v0 + c) distr) = keys distr" using True by (rule keys_update_present)
    with Cons.prems True have "\<not> set ls \<subseteq> set (keys (AList.update l (v0 + c) distr))" by simp
    from Cons.IH [OF this] v0 show ?thesis by simp
  next
    case False
    then have "getitem distr l = Inl KeyError"
      by (cases "getitem distr l") (auto simp: getitem_Inl_iff dest: getitem_Inr_keys)
    then show ?thesis by simp
  qed
qed

subsection \<open>The transition model\<close>

lemma transition_model_of_links:
  assumes links: "getitem corpus p = Inr links"
    and ne: "links \<noteq> []"
    and dl: "distinct links"
    and sub: "set links \<subseteq> set (keys corpus)"
  shows "\<exists>distr. transition_model corpus p d = Inr distr
    \<and> keys distr = keys corpus
    \<and> (\<forall>q \<in> set (keys corpus).
          getitem distr q = Inr (if q \<in> set links
            then (1 - d) / real (length corpus) + d / real (length links)
            else (1 - d) / real (length corpus)))
    \<and> sum_list (map snd distr) = 1"
proof -
  let ?N = "length corpus"
  let ?base = "(1 - d) / real ?N"
  let ?lc = "d / real (length links)"
  from links have cne: "corpus \<noteq> []" by (auto simp: getitem_def)
  then have N: "real ?N \<noteq> 0" by simp
  from ne have L: "real (length links) \<noteq> 0" by simp
  have tm: "transition_model corpus p d = add_link_chance links ?lc (fromkeys (keys corpus) ?base)"
    using links ne cne by (simp add: transition_model_def Let_def)
  from sub have "set links \<subseteq> set (keys (fromkeys (keys corpus) ?base))" by simp
  from add_link_chance_total [OF this, of ?lc] obtain distr where
    r: "add_link_chance links ?lc (fromkeys (keys corpus) ?base) = Inr distr" and
    k: "keys distr = keys (fromkeys (keys corpus) ?base)" and
    s: "sum_list (map snd distr) = sum_list (map snd (fromkeys (keys corpus) ?base)) + real (length links) * ?lc" and
    g: "\<forall>q v. getitem (fromkeys (keys corpus) ?base) q = Inr v \<longrightarrow> getitem distr q = Inr (v + real (count_list links q) * ?lc)"
    by blast
  have "sum_list (map snd distr) = real ?N * ?base + real (length links) * ?lc"
    using s by (simp add: sum_list_fromkeys keys_def)
  also have "\<dots> = 1" using N L by simp
  finally have s1: "sum_list (map snd distr) = 1" .
  have "\<forall>q \<in> set (keys corpus).
          getitem distr q = Inr (if q \<in> set links then ?base + ?lc else ?base)"
  proof
    fix q assume "q \<in> set (keys corpus)"
    then have "getitem (fromkeys (keys corpus) ?base) q = Inr ?base" by (rule getitem_fromkeys)
    with g have gq: "getitem distr q = Inr (?base + real (count_list links q) * ?lc)" by blast
    have "count_list links q = (if q \<in> set links then 1 else 0)"
      using dl by (induction links) auto
    with gq show "getitem distr q = Inr (if q \<in> set links then ?base + ?lc else ?base)" by simp
  qed
  with tm r k s1 show ?thesis by auto
qed

lemma transition_model_of_dangling:
  assumes "getitem corpus p = Inr []"
  shows "transition_model corpus p d = Inr (fromkeys (keys corpus) (1 / real (length corpus)))
    \<and> (\<forall>q \<in> set (keys corpus).
          getitem (fromkeys (keys corpus) (1 / real (length corpus))) q = Inr (1 / real (length corpus)))"
proof -
  from assms have "corpus \<noteq> []" by (auto simp: getitem_def)
  with assms show ?thesis by (simp add: transition_model_def getitem_fromkeys)
qed

text \<open>
  Claim C3. For a page \<open>p\<close> of the graph whose link set \<open>links\<close> is not empty and
  holds pages of the graph only, \<open>transition_model\<close> returns a distribution over
  exactly the keys of the graph, in which a page outside \<open>links\<close> has
  \<open>(1 - d) / total_pages\<close>, a page of \<open>links\<close> has
  \<open>(1 - d) / total_pages + d / |links|\<close>, and the values sum to 1.
\<close>

theorem transition_model_links:
  assumes links: "getitem corpus p = Inr links"
    and ne: "links \<noteq> []"
    and dl: "distinct links"
    and sub: "set links \<subseteq> set (keys corpus)"
  shows "\<exists>distr. transition_model corpus p d = Inr distr
    \<and> keys distr = keys corpus
    \<and> (\<forall>q \<in> set (keys corpus).
          getitem distr q = Inr (if q \<in> set links
            then (1 - d) / real (length corpus) + d / real (length links)
            else (1 - d) / real (length corpus)))
    \<and> sum_list (map snd distr) = 1"
  using assms by (rule transition_model_of_links)

theorem transition_model_links_witness:
  "\<exists>distr. transition_model [(''A'', [''B'']), (''B'', [])] ''A'' (85 / 100) = Inr distr
     \<and> keys distr = [''A'', ''B'']
     \<and> getitem distr ''A'' = Inr (3 / 40) \<and> getitem distr ''B'' = Inr (37 / 40)
     \<and> sum_list (map snd distr) = 1"
proof -
  have h1: "getitem [(''A'', [''B'']), (''B'', [])] ''A'' = Inr [''B'']"
    by (simp add: getitem_def)
  have h2: "[''B''] \<noteq> []" by simp
  have h3: "distinct [''B'']" by simp
  have h4: "set [''B''] \<subseteq> set (keys [(''A'', [''B'']), (''B'', [])])"
    by (simp add: keys_def)
  from transition_model_links [OF h1 h2 h3 h4, of "85 / 100"] show ?thesis
    by (simp add: keys_def)
qed

text \<open>
  Claim C4. For a dangling page \<open>p\<close> (a key of the graph with no links),
  \<open>transition_model\<close> returns the uniform distribution that gives \<open>1 / total_pages\<close>
  to every page of the graph, whatever the damping \<open>d\<close>.
\<close>

theorem transition_model_dangling:
  assumes "getitem corpus p = Inr []"
  shows "transition_model corpus p d = Inr (fromkeys (keys corpus) (1 / real (length corpus)))
    \<and> (\<forall>q \<in> set (keys corpus).
          getitem (fromkeys (keys corpus) (1 / real (length corpus))) q = Inr (1 / real (length corpus)))"
  using assms by (rule transition_model_of_dangling)

theorem transition_model_dangling_witness:
  "getitem [(''A'', [''B'']), (''B'', [])] ''B'' = Inr []
   \<and> transition_model [(''A'', [''B'']), (''B'', [])] ''B'' (85 / 100) = Inr [(''A'', 1 / 2), (''B'', 1 / 2)]"
proof -
  have h: "getitem [(''A'', [''B'']), (''B'', [])] ''B'' = Inr []"
    by (simp add: getitem_def)
  from transition_model_dangling [OF h, of "85 / 100"] h show ?thesis
    by (simp add: fromkeys_def keys_def)
qed

subsection \<open>The empty graph\<close>

text \<open>
  Claim C2, as the claim states it, fails: on the empty graph neither estimator ends
  in \<open>EmptyGraphError\<close>.
\<close>

theorem empty_graph_counterexample:
  "sample_pagerank ([] :: string corpus) (85 / 100) 10000 (\<lambda>k. 0) \<noteq> Inl EmptyGraphError
   \<and> iterate_pagerank ([] :: string corpus) (85 / 100) \<noteq> Some (Inl EmptyGraphError)"
  by (simp add: sample_pagerank_def sample_counts_def choice_def keys_def
      iterate_pagerank_def linking_pages_dict_def fromkeys_def)

text \<open>
  Claim C2, amended. On the empty graph both estimators fail, for every damping, sample
  count and random source: \<open>sample_pagerank\<close> with the \<open>IndexError\<close> of
  \<^verbatim>\<open>random.choice\<close> on an empty list, its first statement, and \<open>iterate_pagerank\<close> with
  the \<open>ZeroDivisionError\<close> of \<^verbatim>\<open>1 / total_pages\<close>, after the loops that build the
  backlink index have run over no page.
\<close>

theorem empty_graph_errors:
  "sample_pagerank ([] :: 'p corpus) d n rnd = Inl IndexError
   \<and> iterate_pagerank ([] :: 'p corpus) d = Some (Inl ZeroDivisionError)"
  by (simp add: sample_pagerank_def sample_counts_def choice_def keys_def
      iterate_pagerank_def linking_pages_dict_def fromkeys_def)

subsection \<open>The single-page graph\<close>

lemma transition_model_single: "transition_model [(a, [])] a d = Inr [(a, 1)]"
  by (simp add: transition_model_def getitem_def fromkeys_def keys_def)

lemma sample_loop_single:
  "sample_loop [(a, [])] d rnd ss [(a, 1)] [(a, c)] = Inr [(a, c + int (length ss))]"
proof (induction ss arbitrary: c)
  case Nil
  then show ?case by simp
next
  case (Cons s ss)
  have "choices (keys [(a, 1::real)]) (map snd [(a, 1::real)]) (rnd (Suc s)) = Inr a"
    by (simp add: choices_def keys_def)
  then show ?case
    using Cons.IH [of "c + 1"]
    by (simp add: transition_model_single getitem_def)
qed

lemma sample_counts_single:
  "sample_counts [(a, [])] d n rnd = Inr [(a, 1 + int (nat (n - 1)))]"
  using sample_loop_single [of a d rnd "[0 ..< nat (n - 1)]" 1]
  by (simp add: sample_counts_def choice_def keys_def transition_model_single
      fromkeys_def getitem_def)

lemma sample_pagerank_single:
  assumes "1 \<le> n"
  shows "sample_pagerank [(a, [])] d n rnd = Inr [(a, 1)]"
proof -
  from assms have "1 + int (nat (n - 1)) = n" by simp
  then have "sample_counts [(a, [])] d n rnd = Inr [(a, n)]"
    by (simp add: sample_counts_single)
  with assms show ?thesis
    by (simp add: sample_pagerank_def keys_def getitem_def)
qed

lemma iterate_pagerank_single:
  "iterate_pagerank [(a, [])] d = Some (Inr [(a, 1)])"
proof -
  have lpd: "linking_pages_dict [(a, [])] = Inr [(a, Some [a])]"
    by (simp add: linking_pages_dict_def keys_def fromkeys_def getitem_def)
  have est: "estimate_page_rank [(a, [])] d (Suc 0) [(a, 1)] [a] = Inr 1"
    by (simp add: estimate_page_rank_def getitem_def)
  have rnd: "update_round [(a, [])] d (Suc 0) [(a, Some [a])] (keys [(a, [])]) False [(a, 1)]
      = Inr (False, [(a, 1)])"
    by (simp add: keys_def getitem_def est threshold_def)
  have "converge [(a, [])] d (Suc 0) [(a, Some [a])] [(a, 1)] = Some (Inr [(a, 1)])"
    by (subst converge.simps) (simp add: rnd)
  then show ?thesis
    by (simp add: iterate_pagerank_def lpd fromkeys_def keys_def)
qed

text \<open>
  Claim C9. On the graph with the one page \<open>a\<close> and no link, with damping 0.85,
  \<open>sample_pagerank\<close> returns the table \<open>{a: 1}\<close> for every \<open>n \<ge> 1\<close> and every random
  source, and \<open>iterate_pagerank\<close> returns the same table.
\<close>

theorem single_page_graph:
  assumes "1 \<le> n"
  shows "sample_pagerank [(a, [])] (85 / 100) n rnd = Inr [(a, 1)]
    \<and> iterate_pagerank [(a, [])] (85 / 100) = Some (Inr [(a, 1)])"
  using assms by (simp add: sample_pagerank_single iterate_pagerank_single)

theorem single_page_graph_witness:
  "(1::int) \<le> 10000
   \<and> sample_pagerank [(''A'', [])] (85 / 100) 10000 (\<lambda>k. 7 * k) = Inr [(''A'', 1)]
   \<and> iterate_pagerank [(''A'', [])] (85 / 100) = Some (Inr [(''A'', 1)])"
proof -
  have h: "(1::int) \<le> 10000" by simp
  from single_page_graph [OF h, of "''A''" "\<lambda>k. 7 * k"] h show ?thesis by simp
qed

subsection \<open>The backlink index\<close>

lemma backlink_iff:
  "backlink corpus p q \<longleftrightarrow> (\<exists>links. getitem corpus q = Inr links \<and> (p \<in> set links \<or> links = []))"
  by (auto simp: backlink_def getitem_def split: option.splits)

lemma linking_pages_filter:
  "set ks \<subseteq> set (keys corpus) \<Longrightarrow>
   linking_pages corpus page ks acc = Inr (acc @ filter (backlink corpus page) ks)"
proof (induction ks arbitrary: acc)
  case Nil
  then show ?case by simp
next
  case (Cons k ks)
  from Cons.prems have "k \<in> set (keys corpus)" by simp
  from getitem_in_keys [OF this] obtain links where l: "getitem corpus k = Inr links" by blast
  then have b: "backlink corpus page k \<longleftrightarrow> page \<in> set links \<or> links = []"
    by (simp add: backlink_iff)
  from Cons.prems have "set ks \<subseteq> set (keys corpus)" by simp
  note IH = Cons.IH [OF this]
  show ?case using l b by (simp add: IH)
qed

lemma build_linking_pages_total:
  "set ps \<subseteq> set (keys lpd) \<Longrightarrow>
   \<exists>lpd'. build_linking_pages corpus ps lpd = Inr lpd' \<and> keys lpd' = keys lpd
     \<and> (\<forall>p. getitem lpd' p =
           (if p \<in> set ps then Inr (Some (filter (backlink corpus p) (keys corpus)))
            else getitem lpd p))"
proof (induction ps arbitrary: lpd)
  case Nil
  then show ?case by simp
next
  case (Cons a ps)
  let ?lps = "filter (backlink corpus a) (keys corpus)"
  let ?l1 = "AList.update a (Some ?lps) lpd"
  have inner: "linking_pages corpus a (keys corpus) [] = Inr ?lps"
    by (simp add: linking_pages_filter)
  from Cons.prems have "a \<in> set (keys lpd)" by simp
  then have k1: "keys ?l1 = keys lpd" by (rule keys_update_present)
  with Cons.prems have "set ps \<subseteq> set (keys ?l1)" by simp
  from Cons.IH [OF this] obtain lpd' where
    r: "build_linking_pages corpus ps ?l1 = Inr lpd'" and
    k: "keys lpd' = keys ?l1" and
    g: "\<forall>p. getitem lpd' p =
           (if p \<in> set ps then Inr (Some (filter (backlink corpus p) (keys corpus)))
            else getitem ?l1 p)"
    by blast
  have "build_linking_pages corpus (a # ps) lpd = Inr lpd'" using inner r by simp
  moreover have "keys lpd' = keys lpd" using k k1 by simp
  moreover have "\<forall>p. getitem lpd' p =
           (if p \<in> set (a # ps) then Inr (Some (filter (backlink corpus p) (keys corpus)))
            else getitem lpd p)"
    using g by (auto simp: getitem_update)
  ultimately show ?case by blast
qed

lemma linking_pages_dict_total:
  "\<exists>lpd. linking_pages_dict corpus = Inr lpd \<and> keys lpd = keys corpus
     \<and> (\<forall>p \<in> set (keys corpus).
           getitem lpd p = Inr (Some (filter (backlink corpus p) (keys corpus))))"
proof -
  have "set (keys corpus) \<subseteq> set (keys (fromkeys (keys corpus) (None :: 'a list option)))"
    by simp
  from build_linking_pages_total [OF this, of corpus] show ?thesis
    unfolding linking_pages_dict_def by auto
qed

text \<open>
  Claim C6. The index built by \<open>iterate_pagerank\<close> has the keys of the graph, and for
  pages \<open>p\<close> and \<open>q\<close> of the graph, \<open>q\<close> is in the backlink list of \<open>p\<close> exactly when
  \<open>p\<close> is among the links of \<open>q\<close> or \<open>q\<close> has no link; so a dangling page is in the
  backlink list of every page, its own included.
\<close>

theorem backlink_index:
  "\<exists>lpd. linking_pages_dict corpus = Inr lpd \<and> keys lpd = keys corpus
     \<and> (\<forall>p \<in> set (keys corpus). \<exists>lps. getitem lpd p = Inr (Some lps)
           \<and> (\<forall>q \<in> set (keys corpus).
                 q \<in> set lps \<longleftrightarrow>
                   (\<exists>links. getitem corpus q = Inr links \<and> (p \<in> set links \<or> links = []))))"
proof -
  from linking_pages_dict_total [of corpus] obtain lpd where
    r: "linking_pages_dict corpus = Inr lpd" and k: "keys lpd = keys corpus" and
    g: "\<forall>p \<in> set (keys corpus).
           getitem lpd p = Inr (Some (filter (backlink corpus p) (keys corpus)))"
    by blast
  have "\<forall>p \<in> set (keys corpus). \<exists>lps. getitem lpd p = Inr (Some lps)
           \<and> (\<forall>q \<in> set (keys corpus).
                 q \<in> set lps \<longleftrightarrow>
                   (\<exists>links. getitem corpus q = Inr links \<and> (p \<in> set links \<or> links = [])))"
  proof
    fix p assume "p \<in> set (keys corpus)"
    with g have "getitem lpd p = Inr (Some (filter (backlink corpus p) (keys corpus)))" by blast
    moreover have "\<forall>q \<in> set (keys corpus).
        q \<in> set (filter (backlink corpus p) (keys corpus)) \<longleftrightarrow>
          (\<exists>links. getitem corpus q = Inr links \<and> (p \<in> set links \<or> links = []))"
      by (simp add: backlink_iff)
    ultimately show "\<exists>lps. getitem lpd p = Inr (Some lps)
           \<and> (\<forall>q \<in> set (keys corpus).
                 q \<in> set lps \<longleftrightarrow>
                   (\<exists>links. getitem corpus q = Inr links \<and> (p \<in> set links \<or> links = [])))"
      by blast
  qed
  with r k show ?thesis by blast
qed

theorem backlink_index_witness:
  "\<exists>lpd lps. linking_pages_dict [(''A'', [''B'']), (''B'', [''C'']), (''C'', [])] = Inr lpd
     \<and> getitem lpd ''C'' = Inr (Some lps)
     \<and> ''C'' \<in> set lps \<and> ''B'' \<in> set lps \<and> ''A'' \<notin> set lps"
proof -
  let ?C = "[(''A'', [''B'']), (''B'', [''C'']), (''C'', [])]"
  from backlink_index [of ?C] obtain lpd where
    r: "linking_pages_dict ?C = Inr lpd" and
    g: "\<forall>p \<in> set (keys ?C). \<exists>lps. getitem lpd p = Inr (Some lps)
           \<and> (\<forall>q \<in> set (keys ?C).
                 q \<in> set lps \<longleftrightarrow>
                   (\<exists>links. getitem ?C q = Inr links \<and> (p \<in> set links \<or> links = [])))"
    by blast
  have "''C'' \<in> set (keys ?C)" by (simp add: keys_def)
  with g obtain lps where
    l: "getitem lpd ''C'' = Inr (Some lps)" and
    m: "\<forall>q \<in> set (keys ?C).
          q \<in> set lps \<longleftrightarrow>
            (\<exists>links. getitem ?C q = Inr links \<and> (''C'' \<in> set links \<or> links = []))"
    by blast
  from m have "''C'' \<in> set lps" "''B'' \<in> set lps" "''A'' \<notin> set lps"
    by (simp_all add: keys_def getitem_def)
  with r l show ?thesis by blast
qed

subsection \<open>Sampling\<close>














lemma sample_loop_keys:
  "sample_loop corpus d rnd ss distr samples = Inr samples' \<Longrightarrow> keys samples' = keys samples"
proof (induction ss arbitrary: distr samples)
  case Nil
  then show ?case by simp
next
  case (Cons s ss)
  from Cons.prems obtain page distr' c where
    c: "getitem samples page = Inr c" and
    r: "sample_loop corpus d rnd ss distr' (AList.update page (c + 1) samples) = Inr samples'"
    by (auto split: sum.splits)
  from getitem_Inr_keys [OF c] have "keys (AList.update page (c + 1) samples) = keys samples"
    by (rule keys_update_present)
  with Cons.IH [OF r] show ?case by simp
qed

lemma sample_counts_keys:
  assumes "sample_counts corpus d n rnd = Inr samples"
  shows "keys samples = keys corpus"
proof -
  from assms obtain page distr c where
    c: "getitem (fromkeys (keys corpus) (0::int)) page = Inr c" and
    r: "sample_loop corpus d rnd [0 ..< nat (n - 1)] distr
          (AList.update page (c + 1) (fromkeys (keys corpus) 0)) = Inr samples"
    by (auto simp: sample_counts_def Let_def split: sum.splits)
  from getitem_Inr_keys [OF c]
  have "keys (AList.update page (c + 1) (fromkeys (keys corpus) (0::int))) = keys (fromkeys (keys corpus) (0::int))"
    by (rule keys_update_present)
  with sample_loop_keys [OF r] show ?thesis by simp
qed

lemma normalise_keys_set:
  "normalise samples ks n acc = Inr page_rank \<Longrightarrow> set (keys page_rank) = set (keys acc) \<union> set ks"
proof (induction ks arbitrary: acc)
  case Nil
  then show ?case by simp
next
  case (Cons k ks)
  from Cons.prems obtain c where
    r: "normalise samples ks n (AList.update k (real_of_int c / real_of_int n) acc) = Inr page_rank"
    by (auto split: sum.splits if_splits)
  from Cons.IH [OF r] show ?case
    by (auto simp: keys_def dom_update)
qed

lemma sample_pagerank_keys:
  assumes "sample_pagerank corpus d n rnd = Inr page_rank"
  shows "set (keys page_rank) = set (keys corpus)"
proof -
  from assms obtain samples where
    sc: "sample_counts corpus d n rnd = Inr samples" and
    r: "normalise samples (keys samples) n [] = Inr page_rank"
    by (auto simp: sample_pagerank_def split: sum.splits)
  from normalise_keys_set [OF r] have "set (keys page_rank) = set (keys samples)"
    by (simp add: keys_def)
  with sample_counts_keys [OF sc] show ?thesis by simp
qed

lemma sample_run_example:
  "sample_pagerank [(''A'', [''B'']), (''B'', [''A''])] (85 / 100) 3 (\<lambda>k. k)
     = Inr [(''A'', 2 / 3), (''B'', 1 / 3)]"
  by (simp add: sample_pagerank_def sample_counts_def choice_def choices_def keys_def
      transition_model_def getitem_def fromkeys_def upt_rec)



subsection \<open>Keys of the results\<close>

lemma update_round_keys:
  "update_round corpus d N lpd ps loop pr = Inr (loop', pr') \<Longrightarrow> keys pr' = keys pr"
proof (induction ps arbitrary: loop pr)
  case Nil
  then show ?case by simp
next
  case (Cons p ps)
  from Cons.prems obtain lps estimate current l1 where
    c: "getitem pr p = Inr current" and
    r: "update_round corpus d N lpd ps l1 (AList.update p estimate pr) = Inr (loop', pr')"
    by (auto split: sum.splits option.splits)
  from getitem_Inr_keys [OF c] have "keys (AList.update p estimate pr) = keys pr"
    by (rule keys_update_present)
  with Cons.IH [OF r] show ?case by simp
qed

lemma converge_keys:
  assumes "converge corpus d N lpd pr = Some y"
  shows "\<forall>res. y = Inr res \<longrightarrow> keys res = keys pr"
  using assms
proof (induction rule: converge.raw_induct [rotated 1, consumes 1, case_names step])
  case (step conv corpus d N lpd pr y)
  show ?case
  proof (cases "update_round corpus d N lpd (keys corpus) False pr")
    case (Inl e)
    with step.hyps show ?thesis by auto
  next
    case (Inr a)
    obtain loop pr' where a: "a = (loop, pr')" by (cases a)
    from update_round_keys Inr a have k: "keys pr' = keys pr" by blast
    show ?thesis
    proof (cases loop)
      case True
      with step.hyps Inr a have "conv corpus d N lpd pr' = Some y" by simp
      from step.IH [OF this] k show ?thesis by simp
    next
      case False
      with step.hyps Inr a k show ?thesis by auto
    qed
  qed
qed

lemma iterate_pagerank_keys:
  assumes "iterate_pagerank corpus d = Some (Inr page_rank)"
  shows "keys page_rank = keys corpus"
proof -
  from assms obtain lpd where
    "converge corpus d (length corpus) lpd (fromkeys (keys corpus) (1 / real (length corpus)))
       = Some (Inr page_rank)"
    by (auto simp: iterate_pagerank_def Let_def split: sum.splits if_splits)
  from converge_keys [OF this] show ?thesis by simp
qed

lemma iterate_run_example:
  "iterate_pagerank [(''A'', [''B'']), (''B'', [''A''])] (85 / 100)
     = Some (Inr [(''A'', 1 / 2), (''B'', 1 / 2)])"
proof -
  let ?C = "[(''A'', [''B'']), (''B'', [''A''])]"
  have lpd: "linking_pages_dict ?C = Inr [(''A'', Some [''B'']), (''B'', Some [''A''])]"
    by (simp add: linking_pages_dict_def keys_def fromkeys_def getitem_def)
  have rnd: "update_round ?C (85 / 100) (length ?C) [(''A'', Some [''B'']), (''B'', Some [''A''])]
       (keys ?C) False [(''A'', 1 / 2), (''B'', 1 / 2)]
     = Inr (False, [(''A'', 1 / 2), (''B'', 1 / 2)])"
    by (simp add: keys_def getitem_def estimate_page_rank_def threshold_def)
  have "converge ?C (85 / 100) (length ?C) [(''A'', Some [''B'']), (''B'', Some [''A''])]
       [(''A'', 1 / 2), (''B'', 1 / 2)] = Some (Inr [(''A'', 1 / 2), (''B'', 1 / 2)])"
    by (subst converge.simps, subst rnd) simp
  then show ?thesis
    by (simp add: iterate_pagerank_def lpd fromkeys_def keys_def)
qed

text \<open>
  Claim C10. Whenever \<open>sample_pagerank\<close> returns a rank table, its key set is the key
  set of the graph, and so it is whenever \<open>iterate_pagerank\<close> returns one.
\<close>

theorem result_keys:
  "(\<forall>page_rank. sample_pagerank corpus d n rnd = Inr page_rank
       \<longrightarrow> set (keys page_rank) = set (keys corpus))
   \<and> (\<forall>page_rank. iterate_pagerank corpus d = Some (Inr page_rank)
       \<longrightarrow> set (keys page_rank) = set (keys corpus))"
  using sample_pagerank_keys iterate_pagerank_keys by metis

theorem result_keys_witness:
  "sample_pagerank [(''A'', [''B'']), (''B'', [''A''])] (85 / 100) 3 (\<lambda>k. k)
     = Inr [(''A'', 2 / 3), (''B'', 1 / 3)]
   \<and> iterate_pagerank [(''A'', [''B'']), (''B'', [''A''])] (85 / 100)
     = Some (Inr [(''A'', 1 / 2), (''B'', 1 / 2)])
   \<and> set (keys [(''A'', 2 / 3 :: real), (''B'', 1 / 3)]) = set (keys [(''A'', [''B'']), (''B'', [''A''])])
   \<and> set (keys [(''A'', 1 / 2 :: real), (''B'', 1 / 2)]) = set (keys [(''A'', [''B'']), (''B'', [''A''])])"
proof -
  note s = sample_run_example and i = iterate_run_example
  from result_keys [of "[(''A'', [''B'']), (''B'', [''A''])]" "85 / 100" 3 "\<lambda>k. k"] s
  have k1: "set (keys [(''A'', 2 / 3 :: real), (''B'', 1 / 3)]) = set (keys [(''A'', [''B'']), (''B'', [''A''])])"
    by blast
  from result_keys [of "[(''A'', [''B'']), (''B'', [''A''])]" "85 / 100" 3 "\<lambda>k. k"] i
  have k2: "set (keys [(''A'', 1 / 2 :: real), (''B'', 1 / 2)]) = set (keys [(''A'', [''B'']), (''B'', [''A''])])"
    by blast
  from s i k1 k2 show ?thesis by blast
qed

subsection \<open>One round of the convergence loop\<close>

lemma update_round_other:
  "update_round corpus d N lpd ps loop pr = Inr (loop', pr') \<Longrightarrow> q \<notin> set ps \<Longrightarrow>
   getitem pr' q = getitem pr q"
proof (induction ps arbitrary: loop pr)
  case Nil
  then show ?case by simp
next
  case (Cons p ps)
  from Cons.prems(1) obtain estimate l1 where
    r: "update_round corpus d N lpd ps l1 (AList.update p estimate pr) = Inr (loop', pr')"
    by (auto split: sum.splits option.splits)
  from Cons.prems(2) have "q \<notin> set ps" and "q \<noteq> p" by auto
  with Cons.IH [OF r] show ?case by (simp add: getitem_update)
qed

lemma update_round_append:
  "update_round corpus d N lpd (xs @ ys) loop pr =
     (case update_round corpus d N lpd xs loop pr of
        Inl e \<Rightarrow> Inl e
      | Inr (l, mid) \<Rightarrow> update_round corpus d N lpd ys l mid)"
  by (induction xs arbitrary: loop pr) (auto split: sum.splits option.splits)

lemma round_in_place:
  assumes dist: "distinct (xs @ page # ys)"
    and run: "update_round corpus d N lpd (xs @ page # ys) loop pr = Inr (loop', pr')"
  shows "\<exists>l mid lps estimate.
       update_round corpus d N lpd xs loop pr = Inr (l, mid)
     \<and> getitem lpd page = Inr (Some lps)
     \<and> estimate_page_rank corpus d N mid lps = Inr estimate
     \<and> getitem pr' page = Inr estimate
     \<and> (\<forall>q \<in> set xs. getitem mid q = getitem pr' q)
     \<and> (\<forall>q. q \<notin> set xs \<longrightarrow> getitem mid q = getitem pr q)"
proof -
  from run obtain l mid where
    first: "update_round corpus d N lpd xs loop pr = Inr (l, mid)" and
    rest: "update_round corpus d N lpd (page # ys) l mid = Inr (loop', pr')"
    by (auto simp: update_round_append split: sum.splits)
  from rest obtain lps estimate l1 where
    lps: "getitem lpd page = Inr (Some lps)" and
    est: "estimate_page_rank corpus d N mid lps = Inr estimate" and
    tail: "update_round corpus d N lpd ys l1 (AList.update page estimate mid) = Inr (loop', pr')"
    by (auto split: sum.splits option.splits)
  from dist have "page \<notin> set ys" by simp
  from update_round_other [OF tail this] have new: "getitem pr' page = Inr estimate"
    by (simp add: getitem_update)
  have early: "\<forall>q \<in> set xs. getitem mid q = getitem pr' q"
  proof
    fix q assume "q \<in> set xs"
    with dist have "q \<notin> set (page # ys)" by auto
    from update_round_other [OF rest this] show "getitem mid q = getitem pr' q" by simp
  qed
  have late: "\<forall>q. q \<notin> set xs \<longrightarrow> getitem mid q = getitem pr q"
    using update_round_other [OF first] by blast
  from first lps est new early late show ?thesis by blast
qed

lemma update_round_flag:
  "distinct ps \<Longrightarrow> update_round corpus d N lpd ps loop pr = Inr (loop', pr') \<Longrightarrow>
   (\<forall>p \<in> set ps. \<exists>old new. getitem pr p = Inr old \<and> getitem pr' p = Inr new)
   \<and> (loop' \<longleftrightarrow> loop \<or>
        (\<exists>p \<in> set ps. \<exists>old new. getitem pr p = Inr old \<and> getitem pr' p = Inr new
           \<and> \<bar>old - new\<bar> > threshold))"
proof (induction ps arbitrary: loop pr)
  case Nil
  then show ?case by simp
next
  case (Cons p ps)
  from Cons.prems(2) obtain lps estimate current where
    cur: "getitem pr p = Inr current" and
    tail: "update_round corpus d N lpd ps
             (if current - estimate > threshold \<or> estimate - current > threshold then True else loop)
             (AList.update p estimate pr) = Inr (loop', pr')"
    by (auto split: sum.splits option.splits)
  let ?l1 = "if current - estimate > threshold \<or> estimate - current > threshold then True else loop"
  let ?pr1 = "AList.update p estimate pr"
  from Cons.prems(1) have dps: "distinct ps" and pn: "p \<notin> set ps" by auto
  from update_round_other [OF tail pn] have new: "getitem pr' p = Inr estimate"
    by (simp add: getitem_update)
  have same: "\<And>q. q \<in> set ps \<Longrightarrow> getitem ?pr1 q = getitem pr q"
    using pn by (auto simp: getitem_update)
  from Cons.IH [OF dps tail] have
    ih1: "\<forall>q \<in> set ps. \<exists>old new. getitem ?pr1 q = Inr old \<and> getitem pr' q = Inr new" and
    ih2: "loop' \<longleftrightarrow> ?l1 \<or>
        (\<exists>q \<in> set ps. \<exists>old new. getitem ?pr1 q = Inr old \<and> getitem pr' q = Inr new
           \<and> \<bar>old - new\<bar> > threshold)"
    by blast+
  have l1: "?l1 \<longleftrightarrow> loop \<or> \<bar>current - estimate\<bar> > threshold" by auto
  have A: "\<forall>q \<in> set (p # ps). \<exists>old new. getitem pr q = Inr old \<and> getitem pr' q = Inr new"
    using ih1 same cur new by auto
  have B: "loop' \<longleftrightarrow> loop \<or>
        (\<exists>q \<in> set (p # ps). \<exists>old new. getitem pr q = Inr old \<and> getitem pr' q = Inr new
           \<and> \<bar>old - new\<bar> > threshold)"
  proof -
    have "(\<exists>q \<in> set ps. \<exists>old new. getitem ?pr1 q = Inr old \<and> getitem pr' q = Inr new
           \<and> \<bar>old - new\<bar> > threshold)
       \<longleftrightarrow> (\<exists>q \<in> set ps. \<exists>old new. getitem pr q = Inr old \<and> getitem pr' q = Inr new
           \<and> \<bar>old - new\<bar> > threshold)"
      using same by auto
    moreover have "(\<exists>old new. getitem pr p = Inr old \<and> getitem pr' p = Inr new
           \<and> \<bar>old - new\<bar> > threshold) \<longleftrightarrow> \<bar>current - estimate\<bar> > threshold"
      using cur new by auto
    ultimately show ?thesis using ih2 l1 by auto
  qed
  from A B show ?case by blast
qed

text \<open>
  Claim C1, as the claim states it, fails. On the graph \<open>{A: {B}, B: {A}, C: {A}}\<close> with
  damping 0.85, the first round of the source leaves \<open>689 / 1200\<close> at page \<open>B\<close>: the
  estimate of \<open>B\<close> has read the rank \<open>37 / 60\<close> that the same round wrote at \<open>A\<close>. A
  round that reads the table of the start of the round leaves \<open>1 / 3\<close> at \<open>B\<close>.
\<close>

theorem snapshot_counterexample:
  "linking_pages_dict [(''A'', [''B'']), (''B'', [''A'']), (''C'', [''A''])]
     = Inr [(''A'', Some [''B'', ''C'']), (''B'', Some [''A'']), (''C'', Some [])]
   \<and> update_round [(''A'', [''B'']), (''B'', [''A'']), (''C'', [''A''])] (85 / 100) 3
        [(''A'', Some [''B'', ''C'']), (''B'', Some [''A'']), (''C'', Some [])]
        [''A'', ''B'', ''C''] False [(''A'', 1 / 3), (''B'', 1 / 3), (''C'', 1 / 3)]
     = Inr (True, [(''A'', 37 / 60), (''B'', 689 / 1200), (''C'', 1 / 20)])
   \<and> snapshot_round [(''A'', [''B'']), (''B'', [''A'']), (''C'', [''A''])] (85 / 100) 3
        [(''A'', Some [''B'', ''C'']), (''B'', Some [''A'']), (''C'', Some [])]
        [''A'', ''B'', ''C''] [(''A'', 1 / 3), (''B'', 1 / 3), (''C'', 1 / 3)]
        [(''A'', 1 / 3), (''B'', 1 / 3), (''C'', 1 / 3)]
     = Inr [(''A'', 37 / 60), (''B'', 1 / 3), (''C'', 1 / 20)]"
  by (simp add: linking_pages_dict_def keys_def fromkeys_def getitem_def
      estimate_page_rank_def threshold_def)

text \<open>
  Claim C1, amended. A round updates the one table \<open>page_rank\<close> in place, page by page
  in key order. The estimate of a page is computed from the table \<open>mid\<close> in which the
  pages before it in the key order hold the values this round has written (their values
  in the result of the round), and every other page holds its value of the start of
  the round; the estimate is the value of the page in the result of the round.
\<close>

theorem round_reads_table_in_place:
  assumes "distinct (xs @ page # ys)"
    and "update_round corpus d N lpd (xs @ page # ys) loop pr = Inr (loop', pr')"
  shows "\<exists>l mid lps estimate.
       update_round corpus d N lpd xs loop pr = Inr (l, mid)
     \<and> getitem lpd page = Inr (Some lps)
     \<and> estimate_page_rank corpus d N mid lps = Inr estimate
     \<and> getitem pr' page = Inr estimate
     \<and> (\<forall>q \<in> set xs. getitem mid q = getitem pr' q)
     \<and> (\<forall>q. q \<notin> set xs \<longrightarrow> getitem mid q = getitem pr q)"
  using assms by (rule round_in_place)

theorem round_reads_table_in_place_witness:
  "\<exists>l mid estimate.
       update_round [(''A'', [''B'']), (''B'', [''A'']), (''C'', [''A''])] (85 / 100) 3
         [(''A'', Some [''B'', ''C'']), (''B'', Some [''A'']), (''C'', Some [])]
         [''A''] False [(''A'', 1 / 3), (''B'', 1 / 3), (''C'', 1 / 3)] = Inr (l, mid)
     \<and> estimate_page_rank [(''A'', [''B'']), (''B'', [''A'']), (''C'', [''A''])] (85 / 100) 3 mid [''A'']
         = Inr estimate
     \<and> getitem [(''A'', 37 / 60), (''B'', 689 / 1200), (''C'', 1 / 20)] ''B'' = Inr estimate
     \<and> getitem mid ''A'' = Inr (37 / 60)
     \<and> getitem mid ''C'' = Inr (1 / 3)"
proof -
  have h1: "distinct ([''A''] @ ''B'' # [''C''])" by simp
  have h2: "update_round [(''A'', [''B'']), (''B'', [''A'']), (''C'', [''A''])] (85 / 100) 3
        [(''A'', Some [''B'', ''C'']), (''B'', Some [''A'']), (''C'', Some [])]
        ([''A''] @ ''B'' # [''C'']) False [(''A'', 1 / 3), (''B'', 1 / 3), (''C'', 1 / 3)]
     = Inr (True, [(''A'', 37 / 60), (''B'', 689 / 1200), (''C'', 1 / 20)])"
    by (simp add: getitem_def estimate_page_rank_def threshold_def)
  from round_reads_table_in_place [OF h1 h2] obtain l mid lps estimate where
    a: "update_round [(''A'', [''B'']), (''B'', [''A'']), (''C'', [''A''])] (85 / 100) 3
         [(''A'', Some [''B'', ''C'']), (''B'', Some [''A'']), (''C'', Some [])]
         [''A''] False [(''A'', 1 / 3), (''B'', 1 / 3), (''C'', 1 / 3)] = Inr (l, mid)" and
    b: "getitem [(''A'', Some [''B'', ''C'']), (''B'', Some [''A'']), (''C'', Some [])] ''B'' = Inr (Some lps)" and
    c: "estimate_page_rank [(''A'', [''B'']), (''B'', [''A'']), (''C'', [''A''])] (85 / 100) 3 mid lps
         = Inr estimate" and
    e: "getitem [(''A'', 37 / 60), (''B'', 689 / 1200), (''C'', 1 / 20)] ''B'' = Inr estimate" and
    f: "\<forall>q \<in> set [''A'']. getitem mid q = getitem [(''A'', 37 / 60), (''B'', 689 / 1200), (''C'', 1 / 20)] q" and
    g: "\<forall>q. q \<notin> set [''A''] \<longrightarrow> getitem mid q = getitem [(''A'', 1 / 3), (''B'', 1 / 3), (''C'', 1 / 3)] q"
    by blast
  from b have lps: "lps = [''A'']" by (simp add: getitem_def)
  from f have fa: "getitem mid ''A'' = Inr (37 / 60)" by (simp add: getitem_def)
  from g have gc: "getitem mid ''C'' = Inr (1 / 3)" by (simp add: getitem_def)
  from a c e fa gc lps show ?thesis by blast
qed

subsection \<open>Exit of the convergence loop\<close>

lemma converge_exit:
  assumes "converge corpus d N lpd pr = Some y"
  shows "\<forall>res. y = Inr res \<longrightarrow>
    (\<exists>prev. update_round corpus d N lpd (keys corpus) False prev = Inr (False, res))"
  using assms
proof (induction rule: converge.raw_induct [rotated 1, consumes 1, case_names step])
  case (step conv corpus d N lpd pr y)
  show ?case
  proof (cases "update_round corpus d N lpd (keys corpus) False pr")
    case (Inl e)
    with step.hyps show ?thesis by auto
  next
    case (Inr a)
    obtain loop pr' where a: "a = (loop, pr')" by (cases a)
    show ?thesis
    proof (cases loop)
      case True
      with step.hyps Inr a have "conv corpus d N lpd pr' = Some y" by simp
      from step.IH [OF this] show ?thesis .
    next
      case False
      with step.hyps Inr a have "y = Inr pr'" by simp
      with Inr a False show ?thesis by auto
    qed
  qed
qed

lemma round_within_tolerance:
  assumes "distinct (keys corpus)"
    and "update_round corpus d N lpd (keys corpus) False pr = Inr (loop, pr')"
  shows "\<not> loop \<longleftrightarrow>
    (\<forall>p \<in> set (keys corpus). \<exists>old new. getitem pr p = Inr old \<and> getitem pr' p = Inr new
        \<and> \<bar>old - new\<bar> \<le> 1 / 1000)"
proof -
  from update_round_flag [OF assms] have
    A: "\<forall>p \<in> set (keys corpus). \<exists>old new. getitem pr p = Inr old \<and> getitem pr' p = Inr new" and
    B: "loop \<longleftrightarrow>
        (\<exists>p \<in> set (keys corpus). \<exists>old new. getitem pr p = Inr old \<and> getitem pr' p = Inr new
           \<and> \<bar>old - new\<bar> > 1 / 1000)"
    by (simp_all add: threshold_def)
  show ?thesis
  proof
    assume nl: "\<not> loop"
    show "\<forall>p \<in> set (keys corpus). \<exists>old new. getitem pr p = Inr old \<and> getitem pr' p = Inr new
        \<and> \<bar>old - new\<bar> \<le> 1 / 1000"
    proof
      fix p assume p: "p \<in> set (keys corpus)"
      with A obtain old new where on: "getitem pr p = Inr old" "getitem pr' p = Inr new" by blast
      with nl B p have "\<not> \<bar>old - new\<bar> > 1 / 1000" by blast
      with on show "\<exists>old new. getitem pr p = Inr old \<and> getitem pr' p = Inr new
        \<and> \<bar>old - new\<bar> \<le> 1 / 1000" by auto
    qed
  next
    assume all: "\<forall>p \<in> set (keys corpus). \<exists>old new. getitem pr p = Inr old \<and> getitem pr' p = Inr new
        \<and> \<bar>old - new\<bar> \<le> 1 / 1000"
    show "\<not> loop"
    proof
      assume loop
      with B obtain p old new where p: "p \<in> set (keys corpus)" and
        on: "getitem pr p = Inr old" "getitem pr' p = Inr new" and gt: "\<bar>old - new\<bar> > 1 / 1000"
        by blast
      from all p obtain old' new' where
        on': "getitem pr p = Inr old'" "getitem pr' p = Inr new'" and le: "\<bar>old' - new'\<bar> \<le> 1 / 1000"
        by blast
      from on on' have "old' = old" "new' = new" by simp_all
      with gt le show False by simp
    qed
  qed
qed




subsection \<open>Termination of the convergence loop\<close>

text \<open>
  A round is a sweep \<open>y' p = d * (\<Sum>q. M p q * (if q is earlier than p then y' q else y q))\<close>
  on the changes \<open>y\<close>, \<open>y'\<close> of two successive rounds. The weights \<open>M\<close> are not
  negative and every column of \<open>M\<close> sums to 1, so the sweep shrinks the weighted change
  by the factor \<open>d\<close>.
\<close>

lemma sweep_contraction:
  fixes M :: "'p \<Rightarrow> 'p \<Rightarrow> real" and E :: "'p \<Rightarrow> 'p \<Rightarrow> bool"
  assumes fin: "finite K"
    and Mnn: "\<And>p q. p \<in> K \<Longrightarrow> q \<in> K \<Longrightarrow> 0 \<le> M p q"
    and col: "\<And>q. q \<in> K \<Longrightarrow> (\<Sum>p\<in>K. M p q) = 1"
    and d0: "0 \<le> d" and d1: "d \<le> 1"
    and step: "\<And>p. p \<in> K \<Longrightarrow> y' p = d * (\<Sum>q\<in>K. M p q * (if E q p then y' q else y q))"
  shows "(\<Sum>q\<in>K. (1 - d * (\<Sum>p\<in>K. if E q p then M p q else 0)) * \<bar>y' q\<bar>)
       \<le> d * (\<Sum>q\<in>K. (1 - d * (\<Sum>p\<in>K. if E q p then M p q else 0)) * \<bar>y q\<bar>)"
proof -
  define a where "a q = (\<Sum>p\<in>K. if E q p then M p q else 0)" for q
  have a0: "0 \<le> a q" if "q \<in> K" for q
    unfolding a_def using that by (intro sum_nonneg) (auto simp: Mnn)
  have a1: "a q \<le> 1" if "q \<in> K" for q
  proof -
    have "a q \<le> (\<Sum>p\<in>K. M p q)"
      unfolding a_def using that by (intro sum_mono) (auto simp: Mnn)
    with col [OF that] show ?thesis by simp
  qed
  have row: "\<bar>y' p\<bar> \<le> d * (\<Sum>q\<in>K. M p q * (if E q p then \<bar>y' q\<bar> else \<bar>y q\<bar>))" if "p \<in> K" for p
  proof -
    have "\<bar>y' p\<bar> = d * \<bar>\<Sum>q\<in>K. M p q * (if E q p then y' q else y q)\<bar>"
      using step [OF that] d0 by (simp add: abs_mult)
    also have "\<bar>\<Sum>q\<in>K. M p q * (if E q p then y' q else y q)\<bar>
        \<le> (\<Sum>q\<in>K. \<bar>M p q * (if E q p then y' q else y q)\<bar>)"
      by (rule sum_abs)
    also have "(\<Sum>q\<in>K. \<bar>M p q * (if E q p then y' q else y q)\<bar>)
        = (\<Sum>q\<in>K. M p q * (if E q p then \<bar>y' q\<bar> else \<bar>y q\<bar>))"
      using that by (intro sum.cong) (auto simp: abs_mult Mnn)
    finally show ?thesis using d0 by (simp add: mult_left_mono)
  qed
  have inner: "(\<Sum>p\<in>K. M p q * (if E q p then A else B)) = a q * A + (1 - a q) * B"
    if "q \<in> K" for q and A B :: real
  proof -
    have "(\<Sum>p\<in>K. M p q * (if E q p then A else B))
        = (\<Sum>p\<in>K. (if E q p then M p q else 0) * A + (M p q - (if E q p then M p q else 0)) * B)"
      by (intro sum.cong) auto
    also have "\<dots> = (\<Sum>p\<in>K. if E q p then M p q else 0) * A
        + ((\<Sum>p\<in>K. M p q) - (\<Sum>p\<in>K. if E q p then M p q else 0)) * B"
      by (simp only: sum.distrib sum_distrib_right [symmetric] sum_subtractf [symmetric])
    finally show ?thesis using col [OF that] by (simp add: a_def)
  qed
  have "(\<Sum>p\<in>K. \<bar>y' p\<bar>) \<le> (\<Sum>p\<in>K. d * (\<Sum>q\<in>K. M p q * (if E q p then \<bar>y' q\<bar> else \<bar>y q\<bar>)))"
    by (intro sum_mono row)
  also have "\<dots> = d * (\<Sum>p\<in>K. \<Sum>q\<in>K. M p q * (if E q p then \<bar>y' q\<bar> else \<bar>y q\<bar>))"
    by (simp add: sum_distrib_left)
  also have "(\<Sum>p\<in>K. \<Sum>q\<in>K. M p q * (if E q p then \<bar>y' q\<bar> else \<bar>y q\<bar>))
      = (\<Sum>q\<in>K. \<Sum>p\<in>K. M p q * (if E q p then \<bar>y' q\<bar> else \<bar>y q\<bar>))"
    by (rule sum.swap)
  also have "\<dots> = (\<Sum>q\<in>K. a q * \<bar>y' q\<bar> + (1 - a q) * \<bar>y q\<bar>)"
    by (intro sum.cong refl inner)
  finally have tot: "(\<Sum>p\<in>K. \<bar>y' p\<bar>) \<le> d * (\<Sum>q\<in>K. a q * \<bar>y' q\<bar> + (1 - a q) * \<bar>y q\<bar>)" .
  have "(\<Sum>q\<in>K. (1 - d * a q) * \<bar>y' q\<bar>) = (\<Sum>q\<in>K. \<bar>y' q\<bar>) - d * (\<Sum>q\<in>K. a q * \<bar>y' q\<bar>)"
    by (simp add: algebra_simps sum_subtractf sum_distrib_left)
  also have "\<dots> \<le> d * (\<Sum>q\<in>K. (1 - a q) * \<bar>y q\<bar>)"
  proof -
    have "(\<Sum>q\<in>K. a q * \<bar>y' q\<bar> + (1 - a q) * \<bar>y q\<bar>)
        = (\<Sum>q\<in>K. a q * \<bar>y' q\<bar>) + (\<Sum>q\<in>K. (1 - a q) * \<bar>y q\<bar>)"
      by (rule sum.distrib)
    with tot show ?thesis by (simp add: distrib_left)
  qed
  also have "\<dots> \<le> d * (\<Sum>q\<in>K. (1 - d * a q) * \<bar>y q\<bar>)"
  proof (intro mult_left_mono sum_mono d0)
    fix q assume q: "q \<in> K"
    have "d * a q \<le> 1 * a q" using d1 a0 [OF q] by (intro mult_right_mono) auto
    then have "1 - a q \<le> 1 - d * a q" by simp
    then show "(1 - a q) * \<bar>y q\<bar> \<le> (1 - d * a q) * \<bar>y q\<bar>"
      by (intro mult_right_mono) auto
  qed
  finally show ?thesis by (simp add: a_def)
qed

lemma rank_of_getitem: "getitem pr q = Inr v \<Longrightarrow> rank_of pr q = v"
  by (simp add: rank_of_def)

lemma rank_of_cong: "getitem a q = getitem b q \<Longrightarrow> rank_of a q = rank_of b q"
  by (simp add: rank_of_def)

lemma component_loop_value:
  assumes ne: "corpus \<noteq> []"
  shows "set lps \<subseteq> set (keys corpus) \<Longrightarrow> set lps \<subseteq> set (keys pr) \<Longrightarrow>
    component_loop corpus (length corpus) pr lps acc
      = Inr (acc + sum_list (map (\<lambda>q. rank_of pr q * out_weight corpus q) lps))"
proof (induction lps arbitrary: acc)
  case Nil
  then show ?case by simp
next
  case (Cons q lps)
  from Cons.prems have "q \<in> set (keys corpus)" and "q \<in> set (keys pr)" by auto
  then obtain links r where l: "getitem corpus q = Inr links" and r: "getitem pr q = Inr r"
    using getitem_in_keys by metis
  from Cons.prems have sub: "set lps \<subseteq> set (keys corpus)" "set lps \<subseteq> set (keys pr)" by auto
  note IH = Cons.IH [OF sub]
  from r have rk: "rank_of pr q = r" by (rule rank_of_getitem)
  show ?case
  proof (cases "links = []")
    case True
    with l have "out_weight corpus q = 1 / real (length corpus)" by (simp add: out_weight_def)
    with l r True ne rk show ?thesis by (simp add: IH algebra_simps)
  next
    case False
    with l have "out_weight corpus q = 1 / real (length links)" by (simp add: out_weight_def)
    with l r False rk show ?thesis by (simp add: IH algebra_simps)
  qed
qed

lemma estimate_backlinks:
  assumes ne: "corpus \<noteq> []" and dist: "distinct (keys corpus)" and k: "keys pr = keys corpus"
  shows "estimate_page_rank corpus d (length corpus) pr (filter (backlink corpus p) (keys corpus))
    = Inr ((1 - d) / real (length corpus)
         + d * (\<Sum>q\<in>set (keys corpus). link_weight corpus p q * rank_of pr q))"
proof -
  let ?lps = "filter (backlink corpus p) (keys corpus)"
  have sub: "set ?lps \<subseteq> set (keys corpus)" "set ?lps \<subseteq> set (keys pr)" using k by auto
  have "sum_list (map (\<lambda>q. rank_of pr q * out_weight corpus q) ?lps)
      = sum_list (map (\<lambda>q. if backlink corpus p q then rank_of pr q * out_weight corpus q else 0)
          (keys corpus))"
    by (rule sum_list_map_filter')
  also have "\<dots> = (\<Sum>q\<in>set (keys corpus).
      if backlink corpus p q then rank_of pr q * out_weight corpus q else 0)"
    using dist by (rule sum_list_distinct_conv_sum_set)
  also have "\<dots> = (\<Sum>q\<in>set (keys corpus). link_weight corpus p q * rank_of pr q)"
    by (intro sum.cong) (auto simp: link_weight_def)
  finally have s: "sum_list (map (\<lambda>q. rank_of pr q * out_weight corpus q) ?lps)
      = (\<Sum>q\<in>set (keys corpus). link_weight corpus p q * rank_of pr q)" .
  from component_loop_value [OF ne sub, of 0] s ne show ?thesis
    by (simp add: estimate_page_rank_def)
qed

lemma update_round_total:
  assumes ne: "corpus \<noteq> []" and dist: "distinct (keys corpus)" and b: "built corpus lpd"
  shows "set ps \<subseteq> set (keys corpus) \<Longrightarrow> keys pr = keys corpus \<Longrightarrow>
    \<exists>loop' pr'. update_round corpus d (length corpus) lpd ps loop pr = Inr (loop', pr')"
proof (induction ps arbitrary: loop pr)
  case Nil
  then show ?case by simp
next
  case (Cons p ps)
  from Cons.prems have pk: "p \<in> set (keys corpus)" by simp
  with b have lp: "getitem lpd p = Inr (Some (filter (backlink corpus p) (keys corpus)))"
    by (simp add: built_def)
  note est = estimate_backlinks [OF ne dist Cons.prems(2), of d p]
  from pk Cons.prems(2) have "p \<in> set (keys pr)" by simp
  from getitem_in_keys [OF this] obtain current where c: "getitem pr p = Inr current" by blast
  let ?e = "(1 - d) / real (length corpus)
         + d * (\<Sum>q\<in>set (keys corpus). link_weight corpus p q * rank_of pr q)"
  have k1: "keys (AList.update p ?e pr) = keys corpus"
    using \<open>p \<in> set (keys pr)\<close> Cons.prems(2) by (simp add: keys_update_present)
  from Cons.prems have "set ps \<subseteq> set (keys corpus)" by simp
  from Cons.IH [OF this k1] lp est c show ?case by simp
qed

lemma split_at_page:
  assumes "p \<in> set ks"
  shows "ks = takeWhile (\<lambda>r. r \<noteq> p) ks @ p # tl (dropWhile (\<lambda>r. r \<noteq> p) ks)"
proof -
  from assms have "dropWhile (\<lambda>r. r \<noteq> p) ks \<noteq> []" by (simp add: dropWhile_eq_Nil_conv)
  moreover from this have "hd (dropWhile (\<lambda>r. r \<noteq> p) ks) = p"
    using hd_dropWhile [of "\<lambda>r. r \<noteq> p" ks] by simp
  ultimately have "dropWhile (\<lambda>r. r \<noteq> p) ks = p # tl (dropWhile (\<lambda>r. r \<noteq> p) ks)"
    by (metis list.collapse)
  with takeWhile_dropWhile_id [of "\<lambda>r. r \<noteq> p" ks] show ?thesis by simp
qed

lemma round_step:
  assumes ne: "corpus \<noteq> []" and dist: "distinct (keys corpus)" and b: "built corpus lpd"
    and k: "keys pr = keys corpus"
    and run: "update_round corpus d (length corpus) lpd (keys corpus) False pr = Inr (loop, pr')"
    and p: "p \<in> set (keys corpus)"
  shows "rank_of pr' p = (1 - d) / real (length corpus)
     + d * (\<Sum>q\<in>set (keys corpus). link_weight corpus p q
              * (if earlier (keys corpus) q p then rank_of pr' q else rank_of pr q))"
proof -
  let ?xs = "takeWhile (\<lambda>r. r \<noteq> p) (keys corpus)"
  let ?ys = "tl (dropWhile (\<lambda>r. r \<noteq> p) (keys corpus))"
  from split_at_page [OF p] have sp: "keys corpus = ?xs @ p # ?ys" .
  from dist sp have d': "distinct (?xs @ p # ?ys)" by simp
  from run sp have run': "update_round corpus d (length corpus) lpd (?xs @ p # ?ys) False pr = Inr (loop, pr')"
    by simp
  from round_in_place [OF d' run'] obtain l mid lps estimate where
    first: "update_round corpus d (length corpus) lpd ?xs False pr = Inr (l, mid)" and
    lps: "getitem lpd p = Inr (Some lps)" and
    est: "estimate_page_rank corpus d (length corpus) mid lps = Inr estimate" and
    new: "getitem pr' p = Inr estimate" and
    early: "\<forall>q \<in> set ?xs. getitem mid q = getitem pr' q" and
    late: "\<forall>q. q \<notin> set ?xs \<longrightarrow> getitem mid q = getitem pr q"
    by blast
  from b p lps have lps': "lps = filter (backlink corpus p) (keys corpus)" by (simp add: built_def)
  from update_round_keys [OF first] k have km: "keys mid = keys corpus" by simp
  from estimate_backlinks [OF ne dist km, of d p] est lps'
  have e: "estimate = (1 - d) / real (length corpus)
         + d * (\<Sum>q\<in>set (keys corpus). link_weight corpus p q * rank_of mid q)" by simp
  have "rank_of mid q = (if earlier (keys corpus) q p then rank_of pr' q else rank_of pr q)" for q
    using early late by (auto simp: earlier_def intro: rank_of_cong)
  with e new show ?thesis by (simp add: rank_of_getitem)
qed

lemma link_weight_nonneg: "0 \<le> link_weight corpus p q"
  by (simp add: link_weight_def out_weight_def split: sum.splits)

lemma column_sum:
  assumes lg: "link_graph corpus" and q: "q \<in> set (keys corpus)"
  shows "(\<Sum>p\<in>set (keys corpus). link_weight corpus p q) = 1"
proof -
  from getitem_in_keys [OF q] obtain links where l: "getitem corpus q = Inr links" by blast
  from lg have dist: "distinct (keys corpus)" and ne: "corpus \<noteq> []" by (simp_all add: link_graph_def)
  from dist have "card (set (keys corpus)) = length (keys corpus)" by (rule distinct_card)
  then have card: "card (set (keys corpus)) = length corpus" by (simp add: keys_def)
  show ?thesis
  proof (cases "links = []")
    case True
    with l have "link_weight corpus p q = 1 / real (length corpus)" for p
      by (simp add: link_weight_def out_weight_def backlink_iff)
    then have "(\<Sum>p\<in>set (keys corpus). link_weight corpus p q)
        = real (card (set (keys corpus))) * (1 / real (length corpus))" by simp
    with card ne show ?thesis by simp
  next
    case False
    from lg l have dl: "distinct links" and sub: "set links \<subseteq> set (keys corpus)"
      by (auto simp: link_graph_def getitem_Inr_iff dest!: map_of_SomeD)
    from l False have w: "link_weight corpus p q = (if p \<in> set links then 1 / real (length links) else 0)" for p
      by (simp add: link_weight_def out_weight_def backlink_iff)
    have "(\<Sum>p\<in>set (keys corpus). link_weight corpus p q)
        = (\<Sum>p\<in>set (keys corpus). if p \<in> set links then 1 / real (length links) else 0)"
      by (simp add: w)
    also have "\<dots> = (\<Sum>p\<in>set (keys corpus) \<inter> set links. 1 / real (length links))"
      by (simp add: sum.inter_restrict [symmetric])
    also have "set (keys corpus) \<inter> set links = set links" using sub by auto
    also have "(\<Sum>p\<in>set links. 1 / real (length links)) = real (card (set links)) * (1 / real (length links))"
      by simp
    also have "card (set links) = length links" using dl by (rule distinct_card)
    finally show ?thesis using False by simp
  qed
qed

lemma delta_step:
  assumes ne: "corpus \<noteq> []" and dist: "distinct (keys corpus)" and b: "built corpus lpd"
    and k: "keys pr = keys corpus"
    and run1: "update_round corpus d (length corpus) lpd (keys corpus) False pr = Inr (loop1, pr1)"
    and run2: "update_round corpus d (length corpus) lpd (keys corpus) False pr1 = Inr (loop2, pr2)"
    and p: "p \<in> set (keys corpus)"
  shows "rank_of pr2 p - rank_of pr1 p
     = d * (\<Sum>q\<in>set (keys corpus). link_weight corpus p q
              * (if earlier (keys corpus) q p then rank_of pr2 q - rank_of pr1 q
                 else rank_of pr1 q - rank_of pr q))"
proof -
  from update_round_keys [OF run1] k have k1: "keys pr1 = keys corpus" by simp
  define S1 where "S1 = (\<Sum>q\<in>set (keys corpus). link_weight corpus p q
              * (if earlier (keys corpus) q p then rank_of pr1 q else rank_of pr q))"
  define S2 where "S2 = (\<Sum>q\<in>set (keys corpus). link_weight corpus p q
              * (if earlier (keys corpus) q p then rank_of pr2 q else rank_of pr1 q))"
  have s1: "rank_of pr1 p = (1 - d) / real (length corpus) + d * S1"
    unfolding S1_def by (rule round_step [OF ne dist b k run1 p])
  have s2: "rank_of pr2 p = (1 - d) / real (length corpus) + d * S2"
    unfolding S2_def by (rule round_step [OF ne dist b k1 run2 p])
  have "(\<Sum>q\<in>set (keys corpus). link_weight corpus p q
              * (if earlier (keys corpus) q p then rank_of pr2 q - rank_of pr1 q
                 else rank_of pr1 q - rank_of pr q))
      = (\<Sum>q\<in>set (keys corpus). link_weight corpus p q
              * (if earlier (keys corpus) q p then rank_of pr2 q else rank_of pr1 q)
            - link_weight corpus p q
              * (if earlier (keys corpus) q p then rank_of pr1 q else rank_of pr q))"
    by (intro sum.cong) (auto simp: algebra_simps)
  also have "\<dots> = S2 - S1"
    unfolding S1_def S2_def by (rule sum_subtractf)
  finally have "(\<Sum>q\<in>set (keys corpus). link_weight corpus p q
              * (if earlier (keys corpus) q p then rank_of pr2 q - rank_of pr1 q
                 else rank_of pr1 q - rank_of pr q)) = S2 - S1" .
  moreover from s1 s2 have "rank_of pr2 p - rank_of pr1 p = d * (S2 - S1)"
    by (simp add: algebra_simps)
  ultimately show ?thesis by simp
qed

lemma mass_lower:
  assumes lg: "link_graph corpus" and d0: "0 \<le> d" and q: "q \<in> set (keys corpus)"
  shows "1 - d \<le> mass corpus d q"
proof -
  have "(\<Sum>p\<in>set (keys corpus). if earlier (keys corpus) q p then link_weight corpus p q else 0)
      \<le> (\<Sum>p\<in>set (keys corpus). link_weight corpus p q)"
    by (intro sum_mono) (auto simp: link_weight_nonneg)
  also have "\<dots> = 1" using lg q by (rule column_sum)
  finally have "d * (\<Sum>p\<in>set (keys corpus). if earlier (keys corpus) q p then link_weight corpus p q else 0)
      \<le> d * 1"
    using d0 by (rule mult_left_mono)
  then show ?thesis by (simp add: mass_def)
qed

lemma change_bound:
  assumes lg: "link_graph corpus" and d0: "0 \<le> d" and d1: "d < 1" and q: "q \<in> set (keys corpus)"
  shows "(1 - d) * \<bar>rank_of b q - rank_of a q\<bar> \<le> change corpus d a b"
proof -
  have nn: "0 \<le> mass corpus d r * \<bar>rank_of b r - rank_of a r\<bar>" if "r \<in> set (keys corpus)" for r
  proof -
    from mass_lower [OF lg d0 that] d1 have "0 \<le> mass corpus d r" by simp
    then show ?thesis by simp
  qed
  have "(1 - d) * \<bar>rank_of b q - rank_of a q\<bar> \<le> mass corpus d q * \<bar>rank_of b q - rank_of a q\<bar>"
    using mass_lower [OF lg d0 q] by (intro mult_right_mono) auto
  also have "\<dots> \<le> change corpus d a b"
    unfolding change_def
    by (rule member_le_sum [of q "set (keys corpus)"
          "\<lambda>r. mass corpus d r * \<bar>rank_of b r - rank_of a r\<bar>"]) (use q nn in auto)
  finally show ?thesis .
qed

lemma change_contracts:
  assumes lg: "link_graph corpus" and b: "built corpus lpd" and d0: "0 \<le> d" and d1: "d \<le> 1"
    and k: "keys pr = keys corpus"
    and run1: "update_round corpus d (length corpus) lpd (keys corpus) False pr = Inr (loop1, pr1)"
    and run2: "update_round corpus d (length corpus) lpd (keys corpus) False pr1 = Inr (loop2, pr2)"
  shows "change corpus d pr1 pr2 \<le> d * change corpus d pr pr1"
proof -
  from lg have dist: "distinct (keys corpus)" and ne: "corpus \<noteq> []" by (simp_all add: link_graph_def)
  have "(\<Sum>q\<in>set (keys corpus).
          (1 - d * (\<Sum>p\<in>set (keys corpus). if earlier (keys corpus) q p then link_weight corpus p q else 0))
            * \<bar>rank_of pr2 q - rank_of pr1 q\<bar>)
       \<le> d * (\<Sum>q\<in>set (keys corpus).
          (1 - d * (\<Sum>p\<in>set (keys corpus). if earlier (keys corpus) q p then link_weight corpus p q else 0))
            * \<bar>rank_of pr1 q - rank_of pr q\<bar>)"
  proof (rule sweep_contraction [where M = "link_weight corpus" and E = "earlier (keys corpus)"])
    show "finite (set (keys corpus))" by simp
    show "0 \<le> link_weight corpus p q" for p q by (rule link_weight_nonneg)
    show "(\<Sum>p\<in>set (keys corpus). link_weight corpus p q) = 1" if "q \<in> set (keys corpus)" for q
      using lg that by (rule column_sum)
    show "0 \<le> d" by (rule d0)
    show "d \<le> 1" by (rule d1)
    show "rank_of pr2 p - rank_of pr1 p
        = d * (\<Sum>q\<in>set (keys corpus). link_weight corpus p q
              * (if earlier (keys corpus) q p then rank_of pr2 q - rank_of pr1 q
                 else rank_of pr1 q - rank_of pr q))"
      if "p \<in> set (keys corpus)" for p
      by (rule delta_step [OF ne dist b k run1 run2 that])
  qed
  then show ?thesis by (simp add: change_def mass_def)
qed

lemma next_table_run:
  assumes lg: "link_graph corpus" and b: "built corpus lpd" and k: "keys pr = keys corpus"
  shows "\<exists>loop. update_round corpus d (length corpus) lpd (keys corpus) False pr
           = Inr (loop, next_table corpus d lpd pr)"
    and "keys (next_table corpus d lpd pr) = keys corpus"
proof -
  from lg have dist: "distinct (keys corpus)" and ne: "corpus \<noteq> []" by (simp_all add: link_graph_def)
  from update_round_total [OF ne dist b subset_refl k, of d False] obtain loop pr' where
    r: "update_round corpus d (length corpus) lpd (keys corpus) False pr = Inr (loop, pr')" by blast
  then have n: "next_table corpus d lpd pr = pr'" by (simp add: next_table_def)
  with r show "\<exists>loop. update_round corpus d (length corpus) lpd (keys corpus) False pr
           = Inr (loop, next_table corpus d lpd pr)" by blast
  from update_round_keys [OF r] k n show "keys (next_table corpus d lpd pr) = keys corpus" by simp
qed

lemma tables_keys:
  assumes lg: "link_graph corpus" and b: "built corpus lpd" and k: "keys pr = keys corpus"
  shows "keys ((next_table corpus d lpd ^^ n) pr) = keys corpus"
  by (induction n) (simp_all add: k next_table_run(2) [OF lg b])

lemma change_decays:
  assumes lg: "link_graph corpus" and b: "built corpus lpd" and d0: "0 \<le> d" and d1: "d \<le> 1"
    and k: "keys pr = keys corpus"
  shows "change corpus d ((next_table corpus d lpd ^^ n) pr) ((next_table corpus d lpd ^^ Suc n) pr)
     \<le> d ^ n * change corpus d pr (next_table corpus d lpd pr)"
proof (induction n)
  case 0
  then show ?case by simp
next
  case (Suc n)
  let ?T = "\<lambda>m. (next_table corpus d lpd ^^ m) pr"
  note kn = tables_keys [OF lg b k, where d = d and n = n]
  from next_table_run(1) [OF lg b kn, where d = d] obtain l1 where
    r1: "update_round corpus d (length corpus) lpd (keys corpus) False (?T n) = Inr (l1, ?T (Suc n))"
    by auto
  note kn1 = tables_keys [OF lg b k, where d = d and n = "Suc n"]
  from next_table_run(1) [OF lg b kn1, where d = d] obtain l2 where
    r2: "update_round corpus d (length corpus) lpd (keys corpus) False (?T (Suc n))
           = Inr (l2, ?T (Suc (Suc n)))"
    by auto
  from change_contracts [OF lg b d0 d1 kn r1 r2]
  have "change corpus d (?T (Suc n)) (?T (Suc (Suc n))) \<le> d * change corpus d (?T n) (?T (Suc n))" .
  also have "\<dots> \<le> d * (d ^ n * change corpus d pr (next_table corpus d lpd pr))"
    using Suc.IH d0 by (rule mult_left_mono)
  finally show ?case by (simp add: mult.assoc)
qed

lemma change_nonneg:
  assumes lg: "link_graph corpus" and d0: "0 \<le> d" and d1: "d < 1"
  shows "0 \<le> change corpus d a b"
  unfolding change_def
proof (rule sum_nonneg)
  fix q assume "q \<in> set (keys corpus)"
  from mass_lower [OF lg d0 this] d1 have "0 \<le> mass corpus d q" by simp
  then show "0 \<le> mass corpus d q * \<bar>rank_of b q - rank_of a q\<bar>" by simp
qed

lemma small_round_exists:
  assumes lg: "link_graph corpus" and b: "built corpus lpd" and d0: "0 \<le> d" and d1: "d < 1"
    and k: "keys pr = keys corpus"
  shows "\<exists>n. \<forall>q \<in> set (keys corpus).
     \<bar>rank_of ((next_table corpus d lpd ^^ Suc n) pr) q - rank_of ((next_table corpus d lpd ^^ n) pr) q\<bar>
       \<le> 1 / 1000"
proof -
  define c0 where "c0 = change corpus d pr (next_table corpus d lpd pr)"
  have c0: "0 \<le> c0" unfolding c0_def by (rule change_nonneg [OF lg d0 d1])
  define y where "y = (1 - d) / 1000 / (c0 + 1)"
  from c0 d1 have "0 < y" by (simp add: y_def)
  from real_arch_pow_inv [OF this d1] obtain n where n: "d ^ n < y" by blast
  have "d ^ n * c0 \<le> y * c0" using n c0 by (intro mult_right_mono) auto
  also have "\<dots> \<le> y * (c0 + 1)" using \<open>0 < y\<close> by (intro mult_left_mono) auto
  also have "\<dots> = (1 - d) / 1000"
  proof -
    have cancel: "x / z * z = x" if "z \<noteq> 0" for x z :: real using that by simp
    from c0 have "c0 + 1 \<noteq> 0" by linarith
    then show ?thesis unfolding y_def by (rule cancel)
  qed
  finally have small: "d ^ n * c0 \<le> (1 - d) / 1000" .
  from d1 have d1': "d \<le> 1" by simp
  have "\<forall>q \<in> set (keys corpus).
     \<bar>rank_of ((next_table corpus d lpd ^^ Suc n) pr) q - rank_of ((next_table corpus d lpd ^^ n) pr) q\<bar>
       \<le> 1 / 1000"
  proof
    fix q assume q: "q \<in> set (keys corpus)"
    let ?D = "\<bar>rank_of ((next_table corpus d lpd ^^ Suc n) pr) q - rank_of ((next_table corpus d lpd ^^ n) pr) q\<bar>"
    have "(1 - d) * ?D
        \<le> change corpus d ((next_table corpus d lpd ^^ n) pr) ((next_table corpus d lpd ^^ Suc n) pr)"
      by (rule change_bound [OF lg d0 d1 q])
    also have "\<dots> \<le> d ^ n * c0"
      unfolding c0_def by (rule change_decays [OF lg b d0 d1' k])
    also note small
    finally have "(1 - d) * ?D \<le> (1 - d) * (1 / 1000)" by simp
    with d1 show "?D \<le> 1 / 1000" by (simp only: mult_le_cancel_left_pos diff_gt_0_iff_gt)
  qed
  then show ?thesis ..
qed

lemma converge_returns:
  assumes lg: "link_graph corpus" and b: "built corpus lpd"
  shows "keys pr = keys corpus \<Longrightarrow>
    update_round corpus d (length corpus) lpd (keys corpus) False ((next_table corpus d lpd ^^ n) pr)
      = Inr (False, res) \<Longrightarrow>
    \<exists>res'. converge corpus d (length corpus) lpd pr = Some (Inr res')"
proof (induction n arbitrary: pr)
  case 0
  then have "update_round corpus d (length corpus) lpd (keys corpus) False pr = Inr (False, res)"
    by simp
  then have "converge corpus d (length corpus) lpd pr = Some (Inr res)"
    by (subst converge.simps) simp
  then show ?case by blast
next
  case (Suc n)
  from next_table_run(1) [OF lg b Suc.prems(1), where d = d] obtain loop where
    r: "update_round corpus d (length corpus) lpd (keys corpus) False pr
          = Inr (loop, next_table corpus d lpd pr)" by blast
  show ?case
  proof (cases loop)
    case True
    with r have c: "converge corpus d (length corpus) lpd pr
        = converge corpus d (length corpus) lpd (next_table corpus d lpd pr)"
      by (subst converge.simps) simp
    have kn: "keys (next_table corpus d lpd pr) = keys corpus"
      by (rule next_table_run(2) [OF lg b Suc.prems(1)])
    from Suc.prems(2) have "update_round corpus d (length corpus) lpd (keys corpus) False
        ((next_table corpus d lpd ^^ n) (next_table corpus d lpd pr)) = Inr (False, res)"
      by (simp add: funpow_swap1)
    from Suc.IH [OF kn this] c show ?thesis by simp
  next
    case False
    with r have "converge corpus d (length corpus) lpd pr = Some (Inr (next_table corpus d lpd pr))"
      by (subst converge.simps) simp
    then show ?thesis by blast
  qed
qed

lemma iterate_pagerank_returns:
  assumes lg: "link_graph corpus" and d0: "0 \<le> d" and d1: "d < 1"
  shows "\<exists>page_rank. iterate_pagerank corpus d = Some (Inr page_rank)"
proof -
  from lg have dist: "distinct (keys corpus)" and ne: "corpus \<noteq> []" by (simp_all add: link_graph_def)
  from linking_pages_dict_total [of corpus] obtain lpd where
    l: "linking_pages_dict corpus = Inr lpd" and b: "built corpus lpd"
    by (auto simp: built_def)
  let ?init = "fromkeys (keys corpus) (1 / real (length corpus))"
  let ?T = "\<lambda>m. (next_table corpus d lpd ^^ m) ?init"
  have k: "keys ?init = keys corpus" by simp
  from small_round_exists [OF lg b d0 d1 k] obtain n where
    small: "\<forall>q \<in> set (keys corpus). \<bar>rank_of (?T (Suc n)) q - rank_of (?T n) q\<bar> \<le> 1 / 1000"
    by blast
  note kn = tables_keys [OF lg b k, where d = d and n = n]
  note kn1 = tables_keys [OF lg b k, where d = d and n = "Suc n"]
  from next_table_run(1) [OF lg b kn, where d = d] obtain loop where
    r: "update_round corpus d (length corpus) lpd (keys corpus) False (?T n) = Inr (loop, ?T (Suc n))"
    by auto
  have "\<forall>p \<in> set (keys corpus). \<exists>old new. getitem (?T n) p = Inr old
      \<and> getitem (?T (Suc n)) p = Inr new \<and> \<bar>old - new\<bar> \<le> 1 / 1000"
  proof
    fix p assume p: "p \<in> set (keys corpus)"
    from p kn have "p \<in> set (keys (?T n))" by simp
    from getitem_in_keys [OF this] obtain old where old: "getitem (?T n) p = Inr old" by blast
    from p kn1 have "p \<in> set (keys (?T (Suc n)))" by simp
    from getitem_in_keys [OF this] obtain new where new: "getitem (?T (Suc n)) p = Inr new" by blast
    from small p have "\<bar>rank_of (?T (Suc n)) p - rank_of (?T n) p\<bar> \<le> 1 / 1000" by blast
    with old new have "\<bar>old - new\<bar> \<le> 1 / 1000"
      by (simp only: rank_of_getitem abs_minus_commute)
    with old new show "\<exists>old new. getitem (?T n) p = Inr old
      \<and> getitem (?T (Suc n)) p = Inr new \<and> \<bar>old - new\<bar> \<le> 1 / 1000" by blast
  qed
  with round_within_tolerance [OF dist r] have "\<not> loop" by blast
  with r have "update_round corpus d (length corpus) lpd (keys corpus) False (?T n)
      = Inr (False, ?T (Suc n))" by simp
  from converge_returns [OF lg b k this] obtain res where
    "converge corpus d (length corpus) lpd ?init = Some (Inr res)" by blast
  with l ne show ?thesis by (simp add: iterate_pagerank_def)
qed

lemma iterate_pagerank_converges:
  assumes lg: "link_graph corpus" and d0: "0 \<le> d" and d1: "d < 1"
  shows "\<exists>page_rank lpd prev.
      iterate_pagerank corpus d = Some (Inr page_rank)
    \<and> linking_pages_dict corpus = Inr lpd
    \<and> update_round corpus d (length corpus) lpd (keys corpus) False prev = Inr (False, page_rank)
    \<and> (\<forall>p \<in> set (keys corpus). \<exists>old new. getitem prev p = Inr old
          \<and> getitem page_rank p = Inr new \<and> \<bar>old - new\<bar> \<le> 1 / 1000)"
proof -
  from lg have dist: "distinct (keys corpus)" and ne: "corpus \<noteq> []" by (simp_all add: link_graph_def)
  from iterate_pagerank_returns [OF assms] obtain page_rank where
    r: "iterate_pagerank corpus d = Some (Inr page_rank)" by blast
  from linking_pages_dict_total [of corpus] obtain lpd where
    l: "linking_pages_dict corpus = Inr lpd" by blast
  from r l ne have "converge corpus d (length corpus) lpd
      (fromkeys (keys corpus) (1 / real (length corpus))) = Some (Inr page_rank)"
    by (simp add: iterate_pagerank_def Let_def)
  from converge_exit [OF this] obtain prev where
    last: "update_round corpus d (length corpus) lpd (keys corpus) False prev = Inr (False, page_rank)"
    by blast
  from round_within_tolerance [OF dist last]
  have "\<forall>p \<in> set (keys corpus). \<exists>old new. getitem prev p = Inr old
          \<and> getitem page_rank p = Inr new \<and> \<bar>old - new\<bar> \<le> 1 / 1000" by blast
  with r l last show ?thesis by blast
qed

text \<open>
  Claim C8. For every graph (\<open>link_graph\<close>) and every damping \<open>0 \<le> d < 1\<close>,
  \<open>iterate_pagerank\<close>
  returns a table: the loop reaches a round, from some table \<open>prev\<close>, in which every page
  changes by at most 0.001, and returns the result of that round.
\<close>

theorem iterate_pagerank_terminates:
  assumes "link_graph corpus" and "0 \<le> d" and "d < 1"
  shows "\<exists>page_rank lpd prev.
      iterate_pagerank corpus d = Some (Inr page_rank)
    \<and> linking_pages_dict corpus = Inr lpd
    \<and> update_round corpus d (length corpus) lpd (keys corpus) False prev = Inr (False, page_rank)
    \<and> (\<forall>p \<in> set (keys corpus). \<exists>old new. getitem prev p = Inr old
          \<and> getitem page_rank p = Inr new \<and> \<bar>old - new\<bar> \<le> 1 / 1000)"
  using assms by (rule iterate_pagerank_converges)

theorem iterate_pagerank_terminates_witness:
  "link_graph [(''A'', [''B'']), (''B'', [''C'']), (''C'', [])]
   \<and> (0::real) \<le> 85 / 100 \<and> (85 / 100 :: real) < 1
   \<and> (\<exists>page_rank.
         iterate_pagerank [(''A'', [''B'']), (''B'', [''C'']), (''C'', [])] (85 / 100)
           = Some (Inr page_rank))"
proof -
  have h1: "link_graph [(''A'', [''B'']), (''B'', [''C'']), (''C'', [])]"
    by (simp add: link_graph_def keys_def)
  have h2: "(0::real) \<le> 85 / 100" by simp
  have h3: "(85 / 100 :: real) < 1" by simp
  from iterate_pagerank_terminates [OF h1 h2 h3] have
    "\<exists>page_rank. iterate_pagerank [(''A'', [''B'']), (''B'', [''C'']), (''C'', [])] (85 / 100)
           = Some (Inr page_rank)" by blast
  with h1 h2 h3 show ?thesis by blast
qed

end
